theory Spec2Isabelle
  imports Complex_Main "HOL-Library.Monad_Syntax" "HOL-Library.Sublist"
begin

section \<open>Polygon simplification: \<^verbatim>\<open>scripts/simplify_boundaries.py\<close>\<close>

text \<open>
  A vertex is a two-element list \<open>[x, y]\<close> of integers, as the extraction script writes
  it. Python's floating point arithmetic (\<open>math.sqrt\<close>, true division) is read as exact
  real arithmetic.
\<close>

type_synonym point = "int \<times> int"

definition distance_point_line :: "point \<Rightarrow> point \<Rightarrow> point \<Rightarrow> real" where
  "distance_point_line pnt start endp =
     (if start = endp
      then sqrt (real_of_int ((fst pnt - fst start)\<^sup>2 + (snd pnt - snd start)\<^sup>2))
      else
        let n = \<bar>(snd endp - snd start) * fst pnt - (fst endp - fst start) * snd pnt
                  + fst endp * snd start - snd endp * fst start\<bar>;
            d = sqrt (real_of_int ((snd endp - snd start)\<^sup>2 + (fst endp - fst start)\<^sup>2))
        in real_of_int n / d)"

text \<open>
  The body of the \<open>for i in range(1, end)\<close> loop of \<open>rdp\<close>, on the pair
  \<open>(dmax, index)\<close>, and the loop itself, started at \<open>dmax = 0\<close>, \<open>index = 0\<close>.
\<close>

definition rdp_step :: "point list \<Rightarrow> nat \<Rightarrow> nat \<Rightarrow> real \<times> nat \<Rightarrow> real \<times> nat" where
  "rdp_step points endi i st =
     (let d = distance_point_line (points ! i) (points ! 0) (points ! endi)
      in if d > fst st then (d, i) else st)"

definition rdp_loop :: "point list \<Rightarrow> nat \<Rightarrow> real \<times> nat" where
  "rdp_loop points endi = fold (rdp_step points endi) [1..<endi] (0, 0)"

text \<open>
  \<open>rdp\<close> calls itself on \<open>points[:index+1]\<close> and \<open>points[index:]\<close>. For a negative
  \<open>epsilon\<close> the second slice can be the whole list again, so the recursion need not
  end: the result is an option, \<open>None\<close> standing for a call that does not return.
  This function is the recursion as the source writes it, with no limit on how deeply
  the calls nest: it gives the result of every call that the interpreter lets run to
  its end. The limit of the interpreter is the subject of \<open>rdp_depth\<close> below.
\<close>

partial_function (option) rdp :: "point list \<Rightarrow> real \<Rightarrow> point list option" where
  "rdp points epsilon =
     (if length points < 3 then Some points
      else
        let endi = length points - 1;
            dmax = fst (rdp_loop points endi);
            index = snd (rdp_loop points endi)
        in if dmax > epsilon
           then do {
             rec_results1 \<leftarrow> rdp (take (index + 1) points) epsilon;
             rec_results2 \<leftarrow> rdp (drop index points) epsilon;
             Some (butlast rec_results1 @ rec_results2)
           }
           else Some [points ! 0, points ! endi])"

text \<open>
  The recursion of \<open>rdp\<close> is native: every nested call takes a frame of the
  interpreter's stack, and Python ends a call that nests more deeply than its recursion
  limit (1000 frames unless it is changed) with a \<open>RecursionError\<close>. \<open>rdp_depth\<close> is
  \<open>rdp\<close> under such a limit: \<open>depth\<close> is the number of nested recursive calls still
  allowed below the current one, and \<open>None\<close> is the \<open>RecursionError\<close>, raised where the
  source would have to go deeper.
\<close>

fun rdp_depth :: "nat \<Rightarrow> point list \<Rightarrow> real \<Rightarrow> point list option" where
  "rdp_depth 0 points epsilon =
     (if length points < 3 then Some points
      else
        let endi = length points - 1;
            dmax = fst (rdp_loop points endi)
        in if dmax > epsilon then None
           else Some [points ! 0, points ! endi])"
| "rdp_depth (Suc depth) points epsilon =
     (if length points < 3 then Some points
      else
        let endi = length points - 1;
            dmax = fst (rdp_loop points endi);
            index = snd (rdp_loop points endi)
        in if dmax > epsilon
           then do {
             rec_results1 \<leftarrow> rdp_depth depth (take (index + 1) points) epsilon;
             rec_results2 \<leftarrow> rdp_depth depth (drop index points) epsilon;
             Some (butlast rec_results1 @ rec_results2)
           }
           else Some [points ! 0, points ! endi])"

text \<open>
  \<open>within_tolerance eps P R\<close>: \<open>R\<close> keeps the first and the last vertex of \<open>P\<close> and
  some vertices in between, in their order, and every vertex of \<open>P\<close> that was dropped
  lies within \<open>eps\<close> (measured by \<open>distance_point_line\<close>) of the line through the two
  kept vertices next to it.
\<close>

inductive within_tolerance :: "real \<Rightarrow> point list \<Rightarrow> point list \<Rightarrow> bool" for eps where
  single: "within_tolerance eps [a] [a]"
| segment: "\<forall>m \<in> set mid. distance_point_line m a b \<le> eps \<Longrightarrow>
            within_tolerance eps (b # rest) R \<Longrightarrow>
            within_tolerance eps (a # mid @ b # rest) (a # R)"

code_pred within_tolerance .

subsection \<open>The dataset\<close>

text \<open>
  The dataset file holds one JSON object. A key that the scripts read with a default
  (\<open>region.get('polygon', [])\<close>, \<open>data.get('extractedRegions', [])\<close>) may be
  missing, so its field is an option; \<open>congregationBoundary\<close> and \<open>extractionDate\<close>
  may be \<open>null\<close>.
\<close>

record region =
  regionId :: nat
  polygon :: "point list option"
  centroid :: point
  area :: real
  vertices :: nat

record dataset =
  extractedRegions :: "region list option"
  congregationBoundary :: "point list option"
  imageWidth :: nat
  imageHeight :: nat
  sourceImage :: string
  extractionDate :: "string option"

text \<open>
  One turn of the loop \<open>for region in regions\<close> of \<open>simplify_boundaries\<close>. The counters
  \<open>total_points_before\<close> and \<open>total_points_after\<close> only feed the printed report and
  are left out. An \<open>rdp\<close> call that does not return ends the run.
\<close>

definition simplify_region :: "real \<Rightarrow> region \<Rightarrow> region option" where
  "simplify_region epsilon r =
     (let poly = (case polygon r of None \<Rightarrow> [] | Some p \<Rightarrow> p)
      in if poly = [] then Some r
         else do {
           simplified \<leftarrow> rdp poly epsilon;
           Some (r\<lparr>polygon := Some simplified, vertices := length simplified\<rparr>)
         })"

fun simplify_regions :: "real \<Rightarrow> region list \<Rightarrow> region list option" where
  "simplify_regions epsilon [] = Some []"
| "simplify_regions epsilon (r # rs) = do {
     r' \<leftarrow> simplify_region epsilon r;
     rs' \<leftarrow> simplify_regions epsilon rs;
     Some (r' # rs')
   }"

definition simplify_dataset :: "real \<Rightarrow> dataset \<Rightarrow> dataset option" where
  "simplify_dataset epsilon data =
     (case extractedRegions data of
        None \<Rightarrow> Some data
      | Some regions \<Rightarrow> do {
          regions' \<leftarrow> simplify_regions epsilon regions;
          Some (data\<lparr>extractedRegions := Some regions'\<rparr>)
        })"

text \<open>Several passes, one after the other, each on the dataset the one before left.\<close>

fun simplify_passes :: "real list \<Rightarrow> dataset \<Rightarrow> dataset option" where
  "simplify_passes [] data = Some data"
| "simplify_passes (epsilon # es) data =
     Option.bind (simplify_dataset epsilon data) (simplify_passes es)"

subsection \<open>Files\<close>

text \<open>
  The file system maps a path to the bytes of the file. What the run cannot decide by
  itself comes from its environment: the timestamp, what \<open>json.load\<close> makes of the
  bytes (\<open>None\<close> when it raises), what \<open>json.dump\<close> writes for a dataset, and whether
  writing fails. \<open>open(path, 'w')\<close> empties the file before \<open>json.dump\<close> writes into
  it, so a write that fails after \<open>n\<close> bytes leaves those \<open>n\<close> bytes in the file.
\<close>

type_synonym path = string
type_synonym fs = "path \<rightharpoonup> string"

datatype write_fault = NoFault | OpenFails | WriteFails nat

record run_env =
  timestamp :: string
  json_load :: "string \<Rightarrow> dataset option"
  json_dump :: "dataset \<Rightarrow> string"
  fault :: write_fault

fun write_file :: "fs \<Rightarrow> path \<Rightarrow> string \<Rightarrow> write_fault \<Rightarrow> fs \<times> bool" where
  "write_file files p content NoFault = (files(p \<mapsto> content), True)"
| "write_file files p content OpenFails = (files, False)"
| "write_file files p content (WriteFails n) = (files(p \<mapsto> take n content), False)"

text \<open>
  How a run ends: the function returns (the process then ends with status 0), or an
  exception that nothing catches ends the process with a non-zero status.
\<close>

datatype completion = Returned | Raised

fun exit_status :: "completion \<Rightarrow> nat" where
  "exit_status Returned = 0"
| "exit_status Raised = 1"

text \<open>
  \<open>simplify_boundaries\<close>, step by step: a missing file is reported and the function
  returns; the file is copied to the backup path; a file that \<open>json.load\<close> rejects is
  reported and the function returns; the regions are simplified (an \<open>rdp\<close> call whose
  recursion does not end is cut off by Python with a \<open>RecursionError\<close>, which nothing
  catches); the dataset is written back, and a failure of that write is reported and
  the function returns. The \<open>__main__\<close> block calls it on the dataset file with
  \<open>epsilon = 50.0\<close>.
\<close>

definition backup_path :: "run_env \<Rightarrow> path \<Rightarrow> path" where
  "backup_path env file_path = file_path @ ''.'' @ timestamp env @ ''.bak''"

definition simplify_boundaries :: "run_env \<Rightarrow> fs \<Rightarrow> path \<Rightarrow> real \<Rightarrow> fs \<times> completion" where
  "simplify_boundaries env files file_path epsilon =
     (case files file_path of
        None \<Rightarrow> (files, Returned)
      | Some content \<Rightarrow>
          let files1 = files(backup_path env file_path \<mapsto> content)
          in case json_load env content of
               None \<Rightarrow> (files1, Returned)
             | Some data \<Rightarrow>
                 (case simplify_dataset epsilon data of
                    None \<Rightarrow> (files1, Raised)
                  | Some data' \<Rightarrow>
                      (fst (write_file files1 file_path (json_dump env data') (fault env)),
                       Returned)))"

definition simplify_main :: "run_env \<Rightarrow> fs \<Rightarrow> fs \<times> nat" where
  "simplify_main env files =
     (let res = simplify_boundaries env files ''data/extracted_regions.json'' 50
      in (fst res, exit_status (snd res)))"

section \<open>Extraction: \<^verbatim>\<open>scripts/extract_boundaries.py\<close>\<close>

text \<open>
  OpenCV is a library outside the repository. Of each contour that \<open>cv2.findContours\<close>
  returns, the model holds what the script asks OpenCV about it: \<open>cv2.contourArea\<close>,
  the parent entry of the hierarchy, \<open>cv2.arcLength(contour, True)\<close>, the vertices of
  \<open>cv2.approxPolyDP(contour, 0.001 * arcLength, True)\<close> converted with \<open>int\<close>, and
  the moments \<open>m00\<close>, \<open>m10\<close>, \<open>m01\<close>. Both places that call \<open>approxPolyDP\<close> pass
  the same contour and the same tolerance, so one field serves both.
\<close>

record contour =
  contourArea :: real
  parent :: int
  arcLength :: real
  approx :: "point list"
  m00 :: real
  m10 :: real
  m01 :: real

text \<open>
  What \<open>cv2.imread\<close> and \<open>cv2.findContours\<close> give for the image file: no image at
  all, or its size and the contours (\<open>None\<close> when OpenCV returns no hierarchy).
\<close>

record image =
  width :: nat
  height :: nat
  found :: "contour list option"

text \<open>Python's \<open>int\<close> of a float drops the fraction, towards zero.\<close>

definition py_int :: "real \<Rightarrow> int" where
  "py_int x = (if 0 \<le> x then \<lfloor>x\<rfloor> else \<lceil>x\<rceil>)"

record loop_state =
  regions :: "region list"
  congregation_boundary :: "point list option"
  max_contour_area :: real

text \<open>The body of the loop \<open>for i, contour in enumerate(contours)\<close>.\<close>

definition classify_step :: "real \<Rightarrow> contour \<Rightarrow> loop_state \<Rightarrow> loop_state" where
  "classify_step total_area c s =
     (let min_area = total_area * 0.0005;
          max_area = total_area * 0.15;
          a = contourArea c
      in if a < min_area then s
         else
           let poly = approx c
           in if length poly < 4 then s
              else
                let cxy = (if m00 c \<noteq> 0
                           then (py_int (m10 c / m00 c), py_int (m01 c / m00 c))
                           else poly ! 0);
                    s1 = (if a > max_contour_area s
                          then s\<lparr>max_contour_area := a,
                                 congregation_boundary :=
                                   (if a > total_area * 0.3 then Some poly
                                    else congregation_boundary s)\<rparr>
                          else s)
                in if a \<le> max_area
                   then s1\<lparr>regions := regions s1 @
                          [\<lparr>regionId = length (regions s1) + 1,
                            polygon = Some poly,
                            centroid = cxy,
                            area = a,
                            vertices = length poly\<rparr>]\<rparr>
                   else s1)"

definition classify_loop :: "real \<Rightarrow> contour list \<Rightarrow> loop_state" where
  "classify_loop total_area cs =
     fold (classify_step total_area) cs
       \<lparr>regions = [], congregation_boundary = None, max_contour_area = 0\<rparr>"

text \<open>
  The three tests that a contour passes before the loop appends a region for it (lines
  91, 106 and 125 of the script), and the region appended (lines 126 to 132), here with
  0 in place of the running number.
\<close>

definition accepted :: "real \<Rightarrow> contour \<Rightarrow> bool" where
  "accepted total_area c \<longleftrightarrow>
     \<not> contourArea c < total_area * 0.0005 \<and> \<not> length (approx c) < 4 \<and>
     contourArea c \<le> total_area * 0.15"

definition region_of :: "contour \<Rightarrow> region" where
  "region_of c =
     \<lparr>regionId = 0,
      polygon = Some (approx c),
      centroid = (if m00 c \<noteq> 0
                  then (py_int (m10 c / m00 c), py_int (m01 c / m00 c))
                  else approx c ! 0),
      area = contourArea c,
      vertices = length (approx c)\<rparr>"

text \<open>
  \<open>regions.sort(key=lambda x: x["area"], reverse=True)\<close>: Python's sort is stable, also
  with \<open>reverse=True\<close> (regions of equal area keep their order). Then the loop that
  numbers the regions again.
\<close>

definition sort_regions :: "region list \<Rightarrow> region list" where
  "sort_regions rs = sort_key (\<lambda>r. - area r) rs"

definition renumber :: "region list \<Rightarrow> region list" where
  "renumber rs = map (\<lambda>(i, r). r\<lparr>regionId := i + 1\<rparr>) (enumerate 0 rs)"

text \<open>The fallback loop, on the pair \<open>(max_perimeter, congregation_boundary)\<close>.\<close>

definition fallback_step ::
  "real \<Rightarrow> contour \<Rightarrow> real \<times> point list option \<Rightarrow> real \<times> point list option" where
  "fallback_step total_area c st =
     (let a = contourArea c;
          perimeter = arcLength c
      in if a > total_area * 0.1 \<and> perimeter > fst st
         then (perimeter, Some (approx c))
         else st)"

definition find_boundary :: "real \<Rightarrow> contour list \<Rightarrow> point list option \<Rightarrow> point list option" where
  "find_boundary total_area cs cb =
     (if cb = None then snd (fold (fallback_step total_area) cs (0, None)) else cb)"

definition extract_boundaries :: "image option \<Rightarrow> dataset option" where
  "extract_boundaries img =
     (case img of
        None \<Rightarrow> None
      | Some im \<Rightarrow>
          (case found im of
             None \<Rightarrow> None
           | Some cs \<Rightarrow>
               let total_area = real (width im * height im);
                   s = classify_loop total_area cs
               in Some \<lparr>extractedRegions = Some (renumber (sort_regions (regions s))),
                        congregationBoundary =
                          find_boundary total_area cs (congregation_boundary s),
                        imageWidth = width im,
                        imageHeight = height im,
                        sourceImage = ''Map/Real Boundary.png'',
                        extractionDate = None\<rparr>))"

text \<open>
  \<open>save_extracted_data\<close> stamps the dataset and writes it; nothing catches an exception
  of the write here.
\<close>

definition save_extracted_data :: "run_env \<Rightarrow> fs \<Rightarrow> dataset \<Rightarrow> fs \<times> completion" where
  "save_extracted_data env files data =
     (let data' = data\<lparr>extractionDate := Some (timestamp env)\<rparr>;
          res = write_file files ''data/extracted_regions.json'' (json_dump env data') (fault env)
      in (fst res, if snd res then Returned else Raised))"

text \<open>
  The axis-aligned bounding box of a polygon: a point is inside when, in each
  coordinate, some vertex is at or below it and some vertex is at or above it.
\<close>

definition in_bbox :: "point \<Rightarrow> point list \<Rightarrow> bool" where
  "in_bbox c poly \<longleftrightarrow>
     list_ex (\<lambda>p. fst p \<le> fst c) poly \<and> list_ex (\<lambda>p. fst c \<le> fst p) poly \<and>
     list_ex (\<lambda>p. snd p \<le> snd c) poly \<and> list_ex (\<lambda>p. snd c \<le> snd p) poly"

section \<open>Well-formed regions\<close>

text \<open>
  A region is well formed for a vertex floor \<open>n\<close> when it has a polygon of at least
  \<open>n\<close> vertices and its \<open>vertices\<close> field is the number of vertices of the polygon.
\<close>

definition region_ok :: "nat \<Rightarrow> region \<Rightarrow> bool" where
  "region_ok n r \<longleftrightarrow>
     (case polygon r of None \<Rightarrow> False | Some p \<Rightarrow> n \<le> length p \<and> vertices r = length p)"

definition dataset_ok :: "nat \<Rightarrow> dataset \<Rightarrow> bool" where
  "dataset_ok n d \<longleftrightarrow>
     list_all (region_ok n) (case extractedRegions d of None \<Rightarrow> [] | Some rs \<Rightarrow> rs)"

section \<open>Example inputs\<close>

text \<open>
  A thin rectangle in a 100 by 100 image: the contour as OpenCV would report it, and
  the dataset that extraction makes of it.
\<close>

definition example_contour :: contour where
  "example_contour =
     \<lparr>contourArea = 20, parent = -1, arcLength = 24,
      approx = [(0, 0), (10, 0), (10, 2), (0, 2)],
      m00 = 20, m10 = 100, m01 = 20\<rparr>"

definition example_region :: region where
  "example_region =
     \<lparr>regionId = 1, polygon = Some [(0, 0), (10, 0), (10, 2), (0, 2)],
      centroid = (5, 1), area = 20, vertices = 4\<rparr>"

definition example_dataset :: dataset where
  "example_dataset =
     \<lparr>extractedRegions = Some [example_region], congregationBoundary = None,
      imageWidth = 100, imageHeight = 100, sourceImage = ''Map/Real Boundary.png'',
      extractionDate = None\<rparr>"

definition example_image :: image where
  "example_image = \<lparr>width = 100, height = 100, found = Some [example_contour]\<rparr>"

text \<open>A contour that covers 12 percent of a 100 by 100 image.\<close>

definition overlap_contour :: contour where
  "overlap_contour =
     \<lparr>contourArea = 1200, parent = -1, arcLength = 140,
      approx = [(0, 0), (40, 0), (40, 30), (0, 30)],
      m00 = 1200, m10 = 24000, m01 = 18000\<rparr>"

definition overlap_image :: image where
  "overlap_image = \<lparr>width = 100, height = 100, found = Some [overlap_contour]\<rparr>"

text \<open>Two thin rectangles of the same area.\<close>

definition twin_contour :: contour where
  "twin_contour =
     \<lparr>contourArea = 20, parent = -1, arcLength = 24,
      approx = [(20, 20), (30, 20), (30, 22), (20, 22)],
      m00 = 20, m10 = 500, m01 = 420\<rparr>"

definition twin_image :: image where
  "twin_image = \<lparr>width = 100, height = 100, found = Some [example_contour, twin_contour]\<rparr>"

text \<open>
  An environment whose \<open>json.load\<close> accepts one file content only, and a file system
  with a dataset file that parses and one that does not.
\<close>

definition example_env :: run_env where
  "example_env =
     \<lparr>timestamp = ''20260101_120000'',
      json_load = (\<lambda>s. if s = ''DATASET'' then Some example_dataset else None),
      json_dump = (\<lambda>d. if d = example_dataset then ''DATASET'' else ''SIMPLIFIED''),
      fault = NoFault\<rparr>"

definition example_files :: fs where
  "example_files = [''data/extracted_regions.json'' \<mapsto> ''DATASET'']"

definition malformed_files :: fs where
  "malformed_files = [''data/extracted_regions.json'' \<mapsto> ''{not json'']"

text \<open>A contour that covers 40 percent of a 100 by 100 image, next to the thin rectangle.\<close>

definition large_contour :: contour where
  "large_contour =
     \<lparr>contourArea = 4000, parent = -1, arcLength = 260,
      approx = [(10, 10), (90, 10), (90, 60), (10, 60)],
      m00 = 4000, m10 = 200000, m01 = 140000\<rparr>"

definition large_image :: image where
  "large_image = \<lparr>width = 100, height = 100, found = Some [large_contour, example_contour]\<rparr>"

text \<open>A triangle that covers 12.5 percent of a 100 by 100 image.\<close>

definition triangle_contour :: contour where
  "triangle_contour =
     \<lparr>contourArea = 1250, parent = -1, arcLength = 171,
      approx = [(0, 0), (50, 0), (0, 50)],
      m00 = 1250, m10 = 20833, m01 = 20833\<rparr>"

definition triangle_image :: image where
  "triangle_image = \<lparr>width = 100, height = 100, found = Some [triangle_contour]\<rparr>"

text \<open>
  A zigzag of \<open>n + 1\<close> vertices, 10 apart in \<open>x\<close>, that alternates between
  \<open>y = 0\<close> and \<open>y = 200\<close> and ends at \<open>y = 100\<close>.
\<close>

definition zigzag :: "nat \<Rightarrow> point list" where
  "zigzag n =
     map (\<lambda>j. (10 * int j, if j = n then 100 else if even j then 0 else 200)) [0..<Suc n]"

section \<open>The scan for the farthest vertex\<close>

lemma rdp_loop_prefix:
  "let st = fold (rdp_step P e) [1..<n] (0, 0) in
     (\<forall>i. 1 \<le> i \<and> i < n \<longrightarrow> distance_point_line (P ! i) (P ! 0) (P ! e) \<le> fst st) \<and>
     ((snd st = 0 \<and> fst st = 0) \<or>
      (1 \<le> snd st \<and> snd st < n \<and> fst st = distance_point_line (P ! snd st) (P ! 0) (P ! e) \<and>
       0 < fst st \<and>
       (\<forall>i. 1 \<le> i \<and> i < snd st \<longrightarrow> distance_point_line (P ! i) (P ! 0) (P ! e) < fst st)))"
proof (induction n)
  case 0
  show ?case by simp
next
  case (Suc n)
  show ?case
  proof (cases "1 \<le> n")
    case False
    then show ?thesis by simp
  next
    case True
    define st where "st = fold (rdp_step P e) [1..<n] (0, 0)"
    have upt: "[1..<Suc n] = [1..<n] @ [n]" using True by simp
    have step: "fold (rdp_step P e) [1..<Suc n] (0, 0) = rdp_step P e n st"
      unfolding upt st_def by simp
    from Suc.IH have IH:
      "(\<forall>i. 1 \<le> i \<and> i < n \<longrightarrow> distance_point_line (P ! i) (P ! 0) (P ! e) \<le> fst st)"
      "((snd st = 0 \<and> fst st = 0) \<or>
      (1 \<le> snd st \<and> snd st < n \<and> fst st = distance_point_line (P ! snd st) (P ! 0) (P ! e) \<and>
       0 < fst st \<and>
       (\<forall>i. 1 \<le> i \<and> i < snd st \<longrightarrow> distance_point_line (P ! i) (P ! 0) (P ! e) < fst st)))"
      unfolding st_def Let_def by blast+
    show ?thesis
    proof (cases "distance_point_line (P ! n) (P ! 0) (P ! e) > fst st")
      case gt: True
      then have new: "rdp_step P e n st = (distance_point_line (P ! n) (P ! 0) (P ! e), n)"
        by (simp add: rdp_step_def)
      have pos: "0 < distance_point_line (P ! n) (P ! 0) (P ! e)"
        using gt IH(2) by auto
      have below: "\<forall>i. 1 \<le> i \<and> i < n \<longrightarrow>
          distance_point_line (P ! i) (P ! 0) (P ! e) < distance_point_line (P ! n) (P ! 0) (P ! e)"
        using IH(1) gt by fastforce
      show ?thesis
        unfolding step new Let_def using True pos below
        by (auto simp: less_Suc_eq intro: less_imp_le)
    next
      case le: False
      then have old: "rdp_step P e n st = st"
        by (simp add: rdp_step_def)
      show ?thesis
        unfolding step old Let_def using IH le
        by (auto simp: less_Suc_eq)
    qed
  qed
qed

lemma rdp_loop_bound:
  "1 \<le> i \<Longrightarrow> i < e \<Longrightarrow> distance_point_line (P ! i) (P ! 0) (P ! e) \<le> fst (rdp_loop P e)"
  using rdp_loop_prefix [of P e e] unfolding rdp_loop_def Let_def by blast

lemma rdp_loop_index:
  assumes "0 < fst (rdp_loop P e)"
  shows "1 \<le> snd (rdp_loop P e)" and "snd (rdp_loop P e) < e"
    and "fst (rdp_loop P e) = distance_point_line (P ! snd (rdp_loop P e)) (P ! 0) (P ! e)"
    and "\<And>i. 1 \<le> i \<Longrightarrow> i < snd (rdp_loop P e) \<Longrightarrow>
           distance_point_line (P ! i) (P ! 0) (P ! e) < fst (rdp_loop P e)"
  using rdp_loop_prefix [of P e e] assms unfolding rdp_loop_def Let_def by auto

lemma rdp_loop_unique:
  assumes k: "1 \<le> k" "k < e"
    and pos: "0 < distance_point_line (P ! k) (P ! 0) (P ! e)"
    and ub: "\<And>i. 1 \<le> i \<Longrightarrow> i < e \<Longrightarrow>
       distance_point_line (P ! i) (P ! 0) (P ! e) \<le> distance_point_line (P ! k) (P ! 0) (P ! e)"
    and first: "\<And>i. 1 \<le> i \<Longrightarrow> i < k \<Longrightarrow>
       distance_point_line (P ! i) (P ! 0) (P ! e) < distance_point_line (P ! k) (P ! 0) (P ! e)"
  shows "rdp_loop P e = (distance_point_line (P ! k) (P ! 0) (P ! e), k)"
proof -
  let ?d = "\<lambda>i. distance_point_line (P ! i) (P ! 0) (P ! e)"
  let ?m = "fst (rdp_loop P e)" and ?j = "snd (rdp_loop P e)"
  have ge: "?d k \<le> ?m" using k by (rule rdp_loop_bound)
  with pos have mpos: "0 < ?m" by simp
  note idx = rdp_loop_index [OF mpos]
  have "?m \<le> ?d k" using ub [OF idx(1) idx(2)] idx(3) by simp
  with ge have m: "?m = ?d k" by simp
  have "\<not> ?j < k" using first [OF idx(1)] idx(3) m by auto
  moreover have "\<not> k < ?j" using idx(4) [OF k(1)] m by auto
  ultimately have "?j = k" by simp
  with m show ?thesis by (simp add: prod_eq_iff)
qed

section \<open>Subsequences within the tolerance\<close>

lemma within_tolerance_nonempty: "within_tolerance eps P R \<Longrightarrow> P \<noteq> [] \<and> R \<noteq> []"
  by (induction rule: within_tolerance.induct) simp_all

lemma within_tolerance_hd: "within_tolerance eps P R \<Longrightarrow> hd R = hd P"
  by (induction rule: within_tolerance.induct) simp_all

lemma within_tolerance_last: "within_tolerance eps P R \<Longrightarrow> last R = last P"
  by (induction rule: within_tolerance.induct) (auto dest: within_tolerance_nonempty)

lemma within_tolerance_length: "within_tolerance eps P R \<Longrightarrow> length R \<le> length P"
  by (induction rule: within_tolerance.induct) simp_all

lemma within_tolerance_length2:
  "within_tolerance eps P R \<Longrightarrow> 2 \<le> length P \<Longrightarrow> 2 \<le> length R"
proof (induction rule: within_tolerance.induct)
  case (single a)
  then show ?case by simp
next
  case (segment mid a b rest R)
  from segment(2) have "R \<noteq> []" by (auto dest: within_tolerance_nonempty)
  then show ?case by (cases R) simp_all
qed

lemma within_tolerance_subseq: "within_tolerance eps P R \<Longrightarrow> subseq R P"
proof (induction rule: within_tolerance.induct)
  case (single a)
  show ?case by simp
next
  case (segment mid a b rest R)
  have "subseq R (mid @ b # rest)"
    using segment.IH by (rule list_emb_append2)
  then show ?case by simp
qed

lemma within_tolerance_join:
  assumes "within_tolerance eps P1 R1" and "within_tolerance eps P2 R2" and "last P1 = hd P2"
  shows "within_tolerance eps (butlast P1 @ P2) (butlast R1 @ R2)"
  using assms
proof (induction rule: within_tolerance.induct)
  case (single a)
  then show ?case by simp
next
  case (segment mid a b rest R)
  from segment.hyps(2) have Rne: "R \<noteq> []" by (auto dest: within_tolerance_nonempty)
  from segment.prems(1) have P2ne: "P2 \<noteq> []" by (auto dest: within_tolerance_nonempty)
  have lastP: "last (b # rest) = hd P2" using segment.prems(2) by simp
  have IH: "within_tolerance eps (butlast (b # rest) @ P2) (butlast R @ R2)"
    using segment.IH [OF segment.prems(1) lastP] .
  show ?case
  proof (cases rest)
    case Nil
    with lastP P2ne have P2: "P2 = b # tl P2" by (cases P2) simp_all
    from IH Nil have "within_tolerance eps (b # tl P2) (butlast R @ R2)" using P2 by simp
    with segment.hyps(1)
    have "within_tolerance eps (a # mid @ b # tl P2) (a # (butlast R @ R2))"
      by (rule within_tolerance.segment)
    with Nil Rne P2 show ?thesis by (simp add: butlast_append)
  next
    case (Cons r rs)
    from IH Cons have "within_tolerance eps (b # (butlast rest @ P2)) (butlast R @ R2)" by simp
    with segment.hyps(1)
    have "within_tolerance eps (a # mid @ b # (butlast rest @ P2)) (a # (butlast R @ R2))"
      by (rule within_tolerance.segment)
    with Cons Rne show ?thesis by (simp add: butlast_append)
  qed
qed

lemma interior_nth:
  "x \<in> set (butlast (tl xs)) \<longleftrightarrow> (\<exists>j. 1 \<le> j \<and> j < length xs - 1 \<and> x = xs ! j)"
proof
  assume "x \<in> set (butlast (tl xs))"
  then obtain i where i: "i < length (butlast (tl xs))" and x: "x = butlast (tl xs) ! i"
    by (auto simp: in_set_conv_nth)
  from i have "Suc i < length xs - 1" by simp
  moreover have "x = xs ! Suc i" using i x by (simp add: nth_butlast nth_tl)
  ultimately show "\<exists>j. 1 \<le> j \<and> j < length xs - 1 \<and> x = xs ! j" by auto
next
  assume "\<exists>j. 1 \<le> j \<and> j < length xs - 1 \<and> x = xs ! j"
  then obtain j where j: "1 \<le> j" "j < length xs - 1" and x: "x = xs ! j" by blast
  then have "j - 1 < length (butlast (tl xs))" by simp
  moreover have "butlast (tl xs) ! (j - 1) = xs ! j"
    using j by (simp add: nth_butlast nth_tl)
  ultimately show "x \<in> set (butlast (tl xs))" using x by (metis nth_mem)
qed

lemma split_ends: "2 \<le> length xs \<Longrightarrow> xs = xs ! 0 # butlast (tl xs) @ [xs ! (length xs - 1)]"
proof -
  assume len: "2 \<le> length xs"
  then obtain a ys where xs: "xs = a # ys" and "ys \<noteq> []" by (cases xs) force+
  then have "ys = butlast ys @ [last ys]" by simp
  moreover have "last ys = xs ! (length xs - 1)"
    using xs \<open>ys \<noteq> []\<close> by (simp add: last_conv_nth)
  ultimately show ?thesis using xs by simp
qed

section \<open>What \<open>rdp\<close> returns\<close>

lemma rdp_short: "length P < 3 \<Longrightarrow> rdp P eps = Some P"
  by (subst rdp.simps) simp

lemma rdp_collapse:
  "\<not> length P < 3 \<Longrightarrow> \<not> fst (rdp_loop P (length P - 1)) > eps \<Longrightarrow>
     rdp P eps = Some [P ! 0, P ! (length P - 1)]"
  by (subst rdp.simps) (simp add: Let_def)

lemma rdp_split:
  "\<not> length P < 3 \<Longrightarrow> fst (rdp_loop P (length P - 1)) > eps \<Longrightarrow>
     rdp P eps =
       Option.bind (rdp (take (snd (rdp_loop P (length P - 1)) + 1) P) eps) (\<lambda>r1.
       Option.bind (rdp (drop (snd (rdp_loop P (length P - 1))) P) eps) (\<lambda>r2.
         Some (butlast r1 @ r2)))"
  by (subst rdp.simps) (simp add: Let_def)

lemma rdp_within_tolerance:
  "0 \<le> eps \<Longrightarrow> 2 \<le> length P \<Longrightarrow> \<exists>R. rdp P eps = Some R \<and> within_tolerance eps P R"
proof (induction "length P" arbitrary: P rule: less_induct)
  case less
  let ?e = "length P - 1"
  let ?m = "fst (rdp_loop P ?e)" and ?i = "snd (rdp_loop P ?e)"
  have P: "P = P ! 0 # butlast (tl P) @ [P ! ?e]"
    using less.prems(2) by (rule split_ends)
  show ?case
  proof (cases "length P < 3")
    case True
    with less.prems(2) have "length P = 2" by simp
    then have "length (butlast (tl P)) = 0" by simp
    then have "butlast (tl P) = []" by (simp only: length_0_conv)
    with P have P2: "P = [P ! 0, P ! ?e]" by simp
    have "within_tolerance eps (P ! 0 # [] @ P ! ?e # []) (P ! 0 # [P ! ?e])"
      by (intro within_tolerance.intros) simp
    with P2 have "within_tolerance eps P P" by simp
    with True show ?thesis by (simp add: rdp_short)
  next
    case long: False
    show ?thesis
    proof (cases "?m > eps")
      case False
      have "\<forall>m \<in> set (butlast (tl P)). distance_point_line m (P ! 0) (P ! ?e) \<le> eps"
      proof
        fix m assume "m \<in> set (butlast (tl P))"
        then obtain j where j: "1 \<le> j" "j < ?e" and m: "m = P ! j"
          unfolding interior_nth by blast
        have "distance_point_line (P ! j) (P ! 0) (P ! ?e) \<le> ?m"
          using j by (rule rdp_loop_bound)
        with False m show "distance_point_line m (P ! 0) (P ! ?e) \<le> eps" by simp
      qed
      then have "within_tolerance eps (P ! 0 # butlast (tl P) @ P ! ?e # []) (P ! 0 # [P ! ?e])"
        by (intro within_tolerance.intros)
      with P have "within_tolerance eps P [P ! 0, P ! ?e]" by simp
      with long False show ?thesis by (simp add: rdp_collapse)
    next
      case True
      with less.prems(1) have pos: "0 < ?m" by simp
      note idx = rdp_loop_index [OF pos]
      let ?L = "take (?i + 1) P" and ?U = "drop ?i P"
      have lenL: "length ?L = ?i + 1" using idx(2) by simp
      have lenU: "length ?U = length P - ?i" by simp
      have "length ?L < length P" "2 \<le> length ?L" using idx(1,2) lenL by simp_all
      from less.hyps [OF this(1) less.prems(1) this(2)]
      obtain R1 where R1: "rdp ?L eps = Some R1" "within_tolerance eps ?L R1" by blast
      have "length ?U < length P" "2 \<le> length ?U" using idx(1,2) by simp_all
      from less.hyps [OF this(1) less.prems(1) this(2)]
      obtain R2 where R2: "rdp ?U eps = Some R2" "within_tolerance eps ?U R2" by blast
      have iP: "?i < length P" using idx(2) by simp
      have L: "?L = take ?i P @ [P ! ?i]"
        using iP by (simp add: take_Suc_conv_app_nth)
      have "last ?L = P ! ?i" unfolding L by simp
      moreover have "hd ?U = P ! ?i" using idx(2) by (simp add: hd_drop_conv_nth)
      ultimately have "last ?L = hd ?U" by simp
      with R1(2) R2(2) have "within_tolerance eps (butlast ?L @ ?U) (butlast R1 @ R2)"
        by (rule within_tolerance_join)
      moreover have "butlast ?L = take ?i P" unfolding L by simp
      ultimately have "within_tolerance eps P (butlast R1 @ R2)" by simp
      moreover have "rdp P eps = Some (butlast R1 @ R2)"
        using long True R1(1) R2(1) by (simp add: rdp_split)
      ultimately show ?thesis by blast
    qed
  qed
qed

lemma rdp_returns: "0 \<le> eps \<Longrightarrow> \<exists>R. rdp P eps = Some R"
proof (cases "2 \<le> length P")
  case True
  assume "0 \<le> eps"
  then show ?thesis using True rdp_within_tolerance by blast
next
  case False
  then show ?thesis by (simp add: rdp_short)
qed

lemma within_tolerance_interior:
  "within_tolerance eps P R \<Longrightarrow> set (butlast (tl R)) \<subseteq> set (butlast (tl P))"
proof (induction rule: within_tolerance.induct)
  case (single a)
  show ?case by simp
next
  case (segment mid a b rest R)
  from segment.hyps(2) have Rne: "R \<noteq> []" and hdR: "hd R = b"
    by (auto dest: within_tolerance_nonempty within_tolerance_hd)
  then have R: "R = b # tl R" by (cases R) simp_all
  show ?case
  proof (cases rest)
    case Nil
    with segment.hyps(2) have "length R \<le> 1" by (auto dest: within_tolerance_length)
    with Rne have "butlast R = []" by (cases R) simp_all
    then show ?thesis by simp
  next
    case (Cons r rs)
    have "set (butlast R) \<subseteq> insert b (set (butlast (tl R)))"
      by (subst R) simp
    also have "\<dots> \<subseteq> insert b (set (butlast rest))"
      using segment.IH by auto
    finally show ?thesis using Cons by (auto simp: butlast_append)
  qed
qed

lemma rdp_idempotent_aux:
  "0 \<le> eps \<Longrightarrow> rdp P eps = Some R \<Longrightarrow> rdp R eps = Some R"
proof (induction "length P" arbitrary: P R rule: less_induct)
  case less
  let ?e = "length P - 1"
  let ?m = "fst (rdp_loop P ?e)" and ?i = "snd (rdp_loop P ?e)"
  let ?d = "\<lambda>x. distance_point_line x (P ! 0) (P ! ?e)"
  show ?case
  proof (cases "length P < 3")
    case True
    with less.prems(2) show ?thesis by (simp add: rdp_short)
  next
    case long: False
    show ?thesis
    proof (cases "?m > eps")
      case False
      with long less.prems(2) have "R = [P ! 0, P ! ?e]" by (simp add: rdp_collapse)
      then show ?thesis by (simp add: rdp_short)
    next
      case True
      with less.prems(1) have pos: "0 < ?m" by simp
      note idx = rdp_loop_index [OF pos]
      let ?L = "take (?i + 1) P" and ?U = "drop ?i P"
      have iP: "?i < length P" using idx(2) by simp
      have lenL: "length ?L = ?i + 1" using idx(2) by simp
      have lenU: "length ?U = length P - ?i" by simp
      have L_lt: "length ?L < length P" and L_2: "2 \<le> length ?L"
        using idx(1,2) lenL by simp_all
      have U_lt: "length ?U < length P" and U_2: "2 \<le> length ?U"
        using idx(1,2) by simp_all
      obtain R1 where R1: "rdp ?L eps = Some R1" "within_tolerance eps ?L R1"
        using rdp_within_tolerance [OF less.prems(1) L_2] by blast
      obtain R2 where R2: "rdp ?U eps = Some R2" "within_tolerance eps ?U R2"
        using rdp_within_tolerance [OF less.prems(1) U_2] by blast
      have R: "R = butlast R1 @ R2"
        using long True R1(1) R2(1) less.prems(2) by (simp add: rdp_split)
      have idem1: "rdp R1 eps = Some R1"
        using less.hyps [OF L_lt less.prems(1) R1(1)] .
      have idem2: "rdp R2 eps = Some R2"
        using less.hyps [OF U_lt less.prems(1) R2(1)] .
      have L: "?L = take ?i P @ [P ! ?i]"
        using iP by (simp add: take_Suc_conv_app_nth)
      have lenR1: "2 \<le> length R1" using R1(2) L_2 by (rule within_tolerance_length2)
      have lenR2: "2 \<le> length R2" using R2(2) U_2 by (rule within_tolerance_length2)
      have R1ne: "R1 \<noteq> []" and R2ne: "R2 \<noteq> []" using lenR1 lenR2 by auto
      have "hd ?L = P ! 0" using long by (cases P) simp_all
      then have hdR1: "hd R1 = P ! 0"
        using within_tolerance_hd [OF R1(2)] by simp
      have lastR1: "last R1 = P ! ?i"
        using within_tolerance_last [OF R1(2)] unfolding L by simp
      have hdR2: "hd R2 = P ! ?i"
        using within_tolerance_hd [OF R2(2)] iP by (simp add: hd_drop_conv_nth)
      have lastR2: "last R2 = P ! ?e"
        using within_tolerance_last [OF R2(2)] iP long by (simp add: last_conv_nth)
      define k where "k = length R1 - 1"
      have k1: "1 \<le> k" using lenR1 by (simp add: k_def)
      have lenb: "length (butlast R1) = k" by (simp add: k_def)
      have R1_split: "R1 = butlast R1 @ [P ! ?i]"
        using R1ne lastR1 by (metis append_butlast_last_id)
      have R2_split: "R2 = P ! ?i # tl R2"
        using R2ne hdR2 by (cases R2) simp_all
      have R_alt: "R = R1 @ tl R2"
        by (subst R, subst R2_split, subst (2) R1_split) simp
      have lenR: "length R = k + length R2" using R lenb by simp
      have take_R: "take (k + 1) R = R1"
        using R_alt lenR1 by (simp add: k_def)
      have drop_R: "drop k R = R2"
        using R lenb by simp
      have R0: "R ! 0 = P ! 0"
        using R_alt R1ne hdR1 by (simp add: nth_append hd_conv_nth)
      have Rend: "R ! (length R - 1) = P ! ?e"
        using R R2ne lastR2 by (metis last_appendR last_conv_nth append_is_Nil_conv)
      have Rk: "R ! k = P ! ?i"
        using R lenb hdR2 R2ne by (simp add: nth_append hd_conv_nth)
      have low: "\<exists>j'. 1 \<le> j' \<and> j' < ?i \<and> R ! j = P ! j'" if j: "1 \<le> j" "j < k" for j
      proof -
        have "j < length R1" using j by (simp add: k_def)
        then have "R ! j = R1 ! j" unfolding R_alt by (simp add: nth_append)
        moreover have "R1 ! j \<in> set (butlast (tl R1))"
          unfolding interior_nth using j by (auto simp: k_def)
        ultimately have "R ! j \<in> set (butlast (tl ?L))"
          using within_tolerance_interior [OF R1(2)] by auto
        then obtain j' where j': "1 \<le> j'" "j' < length ?L - 1" "R ! j = ?L ! j'"
          unfolding interior_nth by blast
        then have "j' < ?i" "R ! j = P ! j'" using lenL by simp_all
        with j'(1) show ?thesis by blast
      qed
      have high: "\<exists>j'. ?i < j' \<and> j' < ?e \<and> R ! j = P ! j'"
        if j: "k < j" "j < length R - 1" for j
      proof -
        have "R ! j = R2 ! (j - k)" using R lenb j by (simp add: nth_append)
        moreover have "R2 ! (j - k) \<in> set (butlast (tl R2))"
          unfolding interior_nth using j lenR by (intro exI [of _ "j - k"]) auto
        ultimately have "R ! j \<in> set (butlast (tl ?U))"
          using within_tolerance_interior [OF R2(2)] by auto
        then obtain j' where j': "1 \<le> j'" "j' < length ?U - 1" "R ! j = ?U ! j'"
          unfolding interior_nth by blast
        then have "?i < ?i + j'" "?i + j' < ?e" "R ! j = P ! (?i + j')"
          using iP by simp_all
        then show ?thesis by blast
      qed
      have eq_m: "?d (R ! k) = ?m" using Rk idx(3) by simp
      have ub: "?d (R ! j) \<le> ?d (R ! k)" if j: "1 \<le> j" "j < length R - 1" for j
      proof -
        consider "j < k" | "j = k" | "k < j" by linarith
        then show ?thesis
        proof cases
          case 1
          with low j obtain j' where "1 \<le> j'" "j' < ?i" "R ! j = P ! j'" by blast
          with idx(4) [of j'] eq_m show ?thesis by simp
        next
          case 2
          then show ?thesis by simp
        next
          case 3
          with high j obtain j' where "?i < j'" "j' < ?e" "R ! j = P ! j'" by blast
          with rdp_loop_bound [of j' ?e P] eq_m show ?thesis by simp
        qed
      qed
      have first: "?d (R ! j) < ?d (R ! k)" if j: "1 \<le> j" "j < k" for j
      proof -
        from low j obtain j' where "1 \<le> j'" "j' < ?i" "R ! j = P ! j'" by blast
        with idx(4) [of j'] eq_m show ?thesis by simp
      qed
      have kR: "k < length R - 1" using lenR lenR2 by simp
      have "rdp_loop R (length R - 1) =
              (distance_point_line (R ! k) (R ! 0) (R ! (length R - 1)), k)"
      proof (rule rdp_loop_unique [OF k1 kR])
        show "0 < distance_point_line (R ! k) (R ! 0) (R ! (length R - 1))"
          using pos eq_m R0 Rend by simp
      next
        fix j assume "1 \<le> j" "j < length R - 1"
        then show "distance_point_line (R ! j) (R ! 0) (R ! (length R - 1))
            \<le> distance_point_line (R ! k) (R ! 0) (R ! (length R - 1))"
          using ub R0 Rend by simp
      next
        fix j assume "1 \<le> j" "j < k"
        then show "distance_point_line (R ! j) (R ! 0) (R ! (length R - 1))
            < distance_point_line (R ! k) (R ! 0) (R ! (length R - 1))"
          using first R0 Rend by simp
      qed
      then have loopR: "rdp_loop R (length R - 1) = (?m, k)"
        using eq_m R0 Rend by simp
      have "\<not> length R < 3" using lenR k1 lenR2 by simp
      moreover have "fst (rdp_loop R (length R - 1)) > eps" using loopR True by simp
      ultimately have "rdp R eps = 
          Option.bind (rdp (take (k + 1) R) eps) (\<lambda>r1.
          Option.bind (rdp (drop k R) eps) (\<lambda>r2. Some (butlast r1 @ r2)))"
        using rdp_split [of R eps] loopR by simp
      then show ?thesis
        using take_R drop_R idem1 idem2 R by simp
    qed
  qed
qed

section \<open>Evaluating \<open>rdp\<close> on a given list\<close>

lemma rdp_loop_2: "rdp_loop P 2 = rdp_step P 2 1 (0, 0)"
  by (simp add: rdp_loop_def upt_conv_Cons)

lemma rdp_loop_3: "rdp_loop P 3 = rdp_step P 3 2 (rdp_step P 3 1 (0, 0))"
  by (simp add: rdp_loop_def upt_conv_Cons numeral_2_eq_2)

lemma rdp_collapse_at:
  assumes "length P = Suc n" "2 \<le> n" "rdp_loop P n = (m, i)" "\<not> m > eps"
  shows "rdp P eps = Some [P ! 0, P ! n]"
  using assms by (simp add: rdp_collapse)

lemma rdp_split_at:
  assumes "length P = Suc n" "2 \<le> n" "rdp_loop P n = (m, i)" "m > eps"
    and "rdp (take (i + 1) P) eps = Some R1" "rdp (drop i P) eps = Some R2"
  shows "rdp P eps = Some (butlast R1 @ R2)"
  using assms by (simp add: rdp_split)

text \<open>Scenario B of the specification.\<close>

lemma scenario_B_loop: "rdp_loop [(0, 0), (5, 1), (10, 0)] 2 = (1, 1)"
  by (simp add: rdp_loop_2 rdp_step_def distance_point_line_def)

lemma scenario_B: "rdp [(0, 0), (5, 1), (10, 0)] 2 = Some [(0, 0), (10, 0)]"
  using rdp_collapse_at [OF _ _ scenario_B_loop, of 2] by simp

text \<open>Scenario C of the specification.\<close>

lemma scenario_C_loop: "rdp_loop [(0, 0), (5, 10), (10, 0)] 2 = (10, 1)"
  by (simp add: rdp_loop_2 rdp_step_def distance_point_line_def)

lemma scenario_C: "rdp [(0, 0), (5, 10), (10, 0)] 2 = Some [(0, 0), (5, 10), (10, 0)]"
  using rdp_split_at [OF _ _ scenario_C_loop, of 2 "[(0, 0), (5, 10)]" "[(5, 10), (10, 0)]"]
  by (simp add: rdp_short)

text \<open>A path that turns back on itself near its second vertex.\<close>

lemma sqrt_1152: "sqrt 1152 < 38"
  by (rule real_less_lsqrt) simp_all

lemma bend_tail_dist: "10 < distance_point_line (100, 20) (80, 24) (104, 0)"
proof -
  have "distance_point_line (100, 20) (80, 24) (104, 0) = 384 / sqrt 1152"
    by (simp add: distance_point_line_def)
  moreover have "(10::real) < 384 / 38" by simp
  moreover have "(384::real) / 38 < 384 / sqrt 1152"
    using sqrt_1152 by (intro divide_strict_left_mono) simp_all
  ultimately show ?thesis by simp
qed

lemma bend_tail_loop:
  "rdp_loop [(80, 24), (100, 20), (104, 0)] 2 =
     (distance_point_line (100, 20) (80, 24) (104, 0), 1)"
  using bend_tail_dist by (simp add: rdp_loop_2 rdp_step_def)

lemma bend_tail:
  "rdp [(80, 24), (100, 20), (104, 0)] 10 = Some [(80, 24), (100, 20), (104, 0)]"
  using rdp_split_at [OF _ _ bend_tail_loop bend_tail_dist,
      of "[(80, 24), (100, 20)]" "[(100, 20), (104, 0)]"]
  by (simp add: rdp_short)

lemma bend_loop: "rdp_loop [(0, 0), (80, 24), (100, 20), (104, 0)] 3 = (24, 1)"
  by (simp add: rdp_loop_3 rdp_step_def distance_point_line_def)

lemma bend:
  "rdp [(0, 0), (80, 24), (100, 20), (104, 0)] 10 =
     Some [(0, 0), (80, 24), (100, 20), (104, 0)]"
  using rdp_split_at [OF _ _ bend_loop, of 10 "[(0, 0), (80, 24)]"
      "[(80, 24), (100, 20), (104, 0)]"] bend_tail
  by (simp add: rdp_short)

lemma bend_shortcut_dist: "distance_point_line (80, 24) (0, 0) (100, 20) \<le> 10"
proof -
  have "distance_point_line (80, 24) (0, 0) (100, 20) = 800 / sqrt 10400"
    by (simp add: distance_point_line_def)
  moreover have "(80::real) \<le> sqrt 10400"
    by (rule real_le_rsqrt) simp
  then have "(800::real) / sqrt 10400 \<le> 800 / 80"
    by (intro divide_left_mono) simp_all
  ultimately show ?thesis by simp
qed

lemma bend_shortcut:
  "within_tolerance 10 [(0, 0), (80, 24), (100, 20), (104, 0)] [(0, 0), (100, 20), (104, 0)]"
proof -
  have "within_tolerance 10 [(104, 0)] [(104, 0)]" by (rule within_tolerance.single)
  then have "within_tolerance 10 ((100, 20) # [] @ (104, 0) # []) ((100, 20) # [(104, 0)])"
    by (intro within_tolerance.segment) simp_all
  then have "within_tolerance 10 ((0, 0) # [(80, 24)] @ (100, 20) # [(104, 0)])
      ((0, 0) # [(100, 20), (104, 0)])"
    using bend_shortcut_dist by (intro within_tolerance.segment) simp_all
  then show ?thesis by simp
qed

section \<open>Depth of the recursion\<close>

lemma rdp_depth_enough:
  "0 \<le> eps \<Longrightarrow> length P \<le> n + 2 \<Longrightarrow> rdp_depth n P eps = rdp P eps"
proof (induction n arbitrary: P)
  case 0
  then show ?case by (simp add: rdp_short)
next
  case (Suc n)
  let ?e = "length P - 1"
  let ?m = "fst (rdp_loop P ?e)" and ?i = "snd (rdp_loop P ?e)"
  show ?case
  proof (cases "length P < 3")
    case True
    then show ?thesis by (simp add: rdp_short)
  next
    case long: False
    show ?thesis
    proof (cases "?m > eps")
      case False
      with long show ?thesis by (simp add: rdp_collapse Let_def)
    next
      case True
      with Suc.prems(1) have pos: "0 < ?m" by simp
      note idx = rdp_loop_index [OF pos]
      have "length (take (?i + 1) P) \<le> n + 2" using idx(2) Suc.prems(2) by simp
      then have L: "rdp_depth n (take (?i + 1) P) eps = rdp (take (?i + 1) P) eps"
        using Suc.IH Suc.prems(1) by blast
      have "length (drop ?i P) \<le> n + 2" using idx(1) Suc.prems(2) by simp
      then have U: "rdp_depth n (drop ?i P) eps = rdp (drop ?i P) eps"
        using Suc.IH Suc.prems(1) by blast
      show ?thesis
        using long True L U by (simp add: rdp_split Let_def)
    qed
  qed
qed

lemma rdp_nonempty:
  assumes "0 \<le> eps" "rdp P eps = Some R" "P \<noteq> []"
  shows "R \<noteq> []"
proof (cases "2 \<le> length P")
  case True
  with assms(1) obtain R' where "rdp P eps = Some R'" "within_tolerance eps P R'"
    using rdp_within_tolerance by blast
  with assms(2) show ?thesis by (auto dest: within_tolerance_nonempty)
next
  case False
  with assms show ?thesis by (simp add: rdp_short)
qed

section \<open>A pass over the dataset\<close>

lemma simplify_region_returns:
  assumes "0 \<le> eps"
  shows "\<exists>r'. simplify_region eps r = Some r'"
proof -
  obtain R where "rdp (case polygon r of None \<Rightarrow> [] | Some p \<Rightarrow> p) eps = Some R"
    using rdp_returns [OF assms] by blast
  then show ?thesis by (simp add: simplify_region_def Let_def)
qed

lemma simplify_region_idem:
  assumes "0 \<le> eps" "simplify_region eps r = Some r'"
  shows "simplify_region eps r' = Some r'"
proof (cases "polygon r")
  case None
  with assms(2) show ?thesis by (simp add: simplify_region_def)
next
  case (Some p)
  show ?thesis
  proof (cases "p = []")
    case True
    with Some assms(2) show ?thesis by (simp add: simplify_region_def)
  next
    case False
    obtain R where R: "rdp p eps = Some R" using rdp_returns [OF assms(1)] by blast
    with Some False assms(2) have r': "r' = r\<lparr>polygon := Some R, vertices := length R\<rparr>"
      by (simp add: simplify_region_def)
    have "R \<noteq> []" using assms(1) R False by (rule rdp_nonempty)
    moreover have "rdp R eps = Some R" using assms(1) R by (rule rdp_idempotent_aux)
    ultimately show ?thesis by (simp add: simplify_region_def r')
  qed
qed

lemma simplify_regions_returns:
  "0 \<le> eps \<Longrightarrow> \<exists>rs'. simplify_regions eps rs = Some rs'"
proof (induction rs)
  case Nil
  show ?case by simp
next
  case (Cons r rs)
  then obtain rs' where "simplify_regions eps rs = Some rs'" by blast
  moreover obtain r' where "simplify_region eps r = Some r'"
    using simplify_region_returns [OF Cons.prems] by blast
  ultimately show ?case by simp
qed

lemma simplify_regions_idem:
  "0 \<le> eps \<Longrightarrow> simplify_regions eps rs = Some rs' \<Longrightarrow> simplify_regions eps rs' = Some rs'"
proof (induction rs arbitrary: rs')
  case Nil
  then show ?case by simp
next
  case (Cons r rs)
  from Cons.prems(2) obtain r' rs'' where
    r': "simplify_region eps r = Some r'" and rs'': "simplify_regions eps rs = Some rs''"
    and eq: "rs' = r' # rs''"
    by (auto simp: bind_eq_Some_conv)
  from Cons.IH [OF Cons.prems(1) rs''] simplify_region_idem [OF Cons.prems(1) r']
  show ?case by (simp add: eq)
qed

lemma simplify_dataset_returns:
  assumes "0 \<le> eps"
  shows "\<exists>d'. simplify_dataset eps d = Some d'"
  using simplify_regions_returns [OF assms]
  by (cases "extractedRegions d") (auto simp: simplify_dataset_def bind_eq_Some_conv)

lemma simplify_dataset_idem:
  assumes "0 \<le> eps" "simplify_dataset eps d = Some d'"
  shows "simplify_dataset eps d' = Some d'"
proof (cases "extractedRegions d")
  case None
  with assms(2) show ?thesis by (simp add: simplify_dataset_def)
next
  case (Some rs)
  with assms(2) obtain rs' where rs': "simplify_regions eps rs = Some rs'"
    and d': "d' = d\<lparr>extractedRegions := Some rs'\<rparr>"
    by (auto simp: simplify_dataset_def bind_eq_Some_conv)
  from simplify_regions_idem [OF assms(1) rs'] show ?thesis
    by (simp add: simplify_dataset_def d')
qed

text \<open>
  Claim C5, as amended. For a vertex list of at least two vertices and a tolerance
  \<open>epsilon \<ge> 0\<close>, \<open>rdp\<close> returns a subsequence of the list that keeps the first and
  the last vertex and in which every dropped vertex lies within \<open>epsilon\<close> of the line
  through the kept vertices next to it. (That the result has as few vertices as
  possible is not part of it.)
\<close>

theorem rdp_keeps_tolerance:
  assumes "0 \<le> eps" and "2 \<le> length P"
  shows "\<exists>R. rdp P eps = Some R \<and> within_tolerance eps P R \<and> subseq R P \<and>
           hd R = hd P \<and> last R = last P"
proof -
  from assms obtain R where R: "rdp P eps = Some R" "within_tolerance eps P R"
    using rdp_within_tolerance by blast
  from R(2) have "subseq R P" "hd R = hd P" "last R = last P"
    by (rule within_tolerance_subseq within_tolerance_hd within_tolerance_last)+
  with R show ?thesis by blast
qed

theorem rdp_keeps_tolerance_witness:
  "(0::real) \<le> 2 \<and> 2 \<le> length [(0, 0), (5, 1), (10, 0::int)] \<and>
   rdp [(0, 0), (5, 1), (10, 0)] 2 = Some [(0, 0), (10, 0)] \<and>
   within_tolerance 2 [(0, 0), (5, 1), (10, 0)] [(0, 0), (10, 0)]"
  using rdp_keeps_tolerance [of 2 "[(0, 0), (5, 1), (10, 0)]"] scenario_B by simp

text \<open>
  Claim C5 as the specification states it fails: on the path
  \<open>[(0,0), (80,24), (100,20), (104,0)]\<close> with tolerance 10, \<open>rdp\<close> keeps all four
  vertices, although the three vertices \<open>[(0,0), (100,20), (104,0)]\<close> already keep
  the dropped one within the tolerance.
\<close>

theorem rdp_not_minimal:
  "rdp [(0, 0), (80, 24), (100, 20), (104, 0)] 10 =
     Some [(0, 0), (80, 24), (100, 20), (104, 0)] \<and>
   within_tolerance 10 [(0, 0), (80, 24), (100, 20), (104, 0)]
     [(0, 0), (100, 20), (104, 0)] \<and>
   length [(0, 0), (100, 20), (104, 0::int)] <
     length [(0, 0), (80, 24), (100, 20), (104, 0::int)]"
  using bend bend_shortcut by simp

text \<open>
  Claim C6. \<open>rdp\<close> is idempotent for every vertex list and every \<open>epsilon \<ge> 0\<close>: it
  returns, and applied to its own result it returns that result again. Hence a second
  pass over a dataset with the same \<open>epsilon\<close> changes nothing.
\<close>

theorem rdp_idempotent:
  assumes "0 \<le> eps"
  shows "(\<exists>R. rdp P eps = Some R \<and> rdp R eps = Some R) \<and>
         (\<exists>d'. simplify_dataset eps d = Some d' \<and> simplify_dataset eps d' = Some d')"
proof
  obtain R where R: "rdp P eps = Some R" using rdp_returns [OF assms] by blast
  moreover from assms R have "rdp R eps = Some R" by (rule rdp_idempotent_aux)
  ultimately show "\<exists>R. rdp P eps = Some R \<and> rdp R eps = Some R" by blast
next
  obtain d' where d': "simplify_dataset eps d = Some d'"
    using simplify_dataset_returns [OF assms] by blast
  moreover from assms d' have "simplify_dataset eps d' = Some d'"
    by (rule simplify_dataset_idem)
  ultimately show "\<exists>d'. simplify_dataset eps d = Some d' \<and> simplify_dataset eps d' = Some d'"
    by blast
qed

theorem rdp_idempotent_witness:
  "(0::real) \<le> 2 \<and>
   rdp [(0, 0), (5, 1), (10, 0)] 2 = Some [(0, 0), (10, 0)] \<and>
   rdp [(0, 0), (10, 0)] 2 = Some [(0, 0), (10, 0)] \<and>
   (\<exists>d'. simplify_dataset 2 example_dataset = Some d' \<and> simplify_dataset 2 d' = Some d')"
  using rdp_idempotent [of 2 "[(0, 0), (5, 1), (10, 0)]" example_dataset] scenario_B
  by simp

text \<open>
  Claim C9. For \<open>epsilon \<ge> 0\<close>, \<open>rdp\<close> returns on every vertex list, its calls never
  nest more deeply than the list has vertices, and where it calls itself both
  sublists are strictly shorter than the list.
\<close>

theorem rdp_terminates:
  assumes "0 \<le> eps"
  shows "(\<exists>R. rdp P eps = Some R \<and> rdp_depth (length P) P eps = Some R) \<and>
         (\<not> length P < 3 \<and> eps < fst (rdp_loop P (length P - 1)) \<longrightarrow>
            length (take (snd (rdp_loop P (length P - 1)) + 1) P) < length P \<and>
            length (drop (snd (rdp_loop P (length P - 1))) P) < length P)"
proof
  obtain R where R: "rdp P eps = Some R" using rdp_returns [OF assms] by blast
  moreover have "rdp_depth (length P) P eps = rdp P eps"
    using assms by (rule rdp_depth_enough) simp
  ultimately show "\<exists>R. rdp P eps = Some R \<and> rdp_depth (length P) P eps = Some R" by simp
next
  show "\<not> length P < 3 \<and> eps < fst (rdp_loop P (length P - 1)) \<longrightarrow>
            length (take (snd (rdp_loop P (length P - 1)) + 1) P) < length P \<and>
            length (drop (snd (rdp_loop P (length P - 1))) P) < length P"
  proof
    assume a: "\<not> length P < 3 \<and> eps < fst (rdp_loop P (length P - 1))"
    with assms have "0 < fst (rdp_loop P (length P - 1))" by simp
    note idx = rdp_loop_index [OF this]
    from idx(1,2) have "snd (rdp_loop P (length P - 1)) + 1 < length P"
      and "length P - snd (rdp_loop P (length P - 1)) < length P"
      by arith+
    then show "length (take (snd (rdp_loop P (length P - 1)) + 1) P) < length P \<and>
            length (drop (snd (rdp_loop P (length P - 1))) P) < length P"
      by simp
  qed
qed

theorem rdp_terminates_witness:
  "(0::real) \<le> 2 \<and>
   rdp [(0, 0), (5, 10), (10, 0)] 2 = Some [(0, 0), (5, 10), (10, 0)] \<and>
   rdp_depth 3 [(0, 0), (5, 10), (10, 0)] 2 = Some [(0, 0), (5, 10), (10, 0)] \<and>
   \<not> length [(0, 0), (5, 10), (10, 0::int)] < 3 \<and>
   2 < fst (rdp_loop [(0, 0), (5, 10), (10, 0)] 2) \<and>
   length (take (snd (rdp_loop [(0, 0), (5, 10), (10, 0)] 2) + 1) [(0, 0), (5, 10), (10, 0)]) < 3"
proof -
  let ?P = "[(0, 0), (5, 10), (10, 0)] :: point list"
  have eps: "(0::real) \<le> 2" by simp
  have len: "length ?P = 3" by simp
  from rdp_terminates [OF eps, of ?P]
  obtain R where R: "rdp ?P 2 = Some R" "rdp_depth (length ?P) ?P 2 = Some R" by blast
  from R(1) scenario_C have "R = ?P" by simp
  with R(2) have "rdp_depth 3 ?P 2 = Some ?P" unfolding len by simp
  then show ?thesis using scenario_C scenario_C_loop by simp
qed

section \<open>The classification loop\<close>

lemma classify_loop_snoc:
  "classify_loop t (cs @ [c]) = classify_step t c (classify_loop t cs)"
  by (simp add: classify_loop_def)

lemma classify_step_regions:
  assumes "r \<in> set (regions (classify_step t c s))"
  shows "r \<in> set (regions s) \<or>
         (\<not> contourArea c < t * 0.0005 \<and> 4 \<le> length (approx c) \<and> contourArea c \<le> t * 0.15 \<and>
          polygon r = Some (approx c) \<and> area r = contourArea c \<and>
          vertices r = length (approx c) \<and>
          centroid r = (if m00 c \<noteq> 0
                        then (py_int (m10 c / m00 c), py_int (m01 c / m00 c))
                        else approx c ! 0))"
  using assms by (auto simp: classify_step_def Let_def split: if_splits)

lemma classify_loop_regions:
  "r \<in> set (regions (classify_loop t cs)) \<Longrightarrow>
     \<exists>c \<in> set cs.
       \<not> contourArea c < t * 0.0005 \<and> 4 \<le> length (approx c) \<and> contourArea c \<le> t * 0.15 \<and>
       polygon r = Some (approx c) \<and> area r = contourArea c \<and>
       vertices r = length (approx c) \<and>
       centroid r = (if m00 c \<noteq> 0
                     then (py_int (m10 c / m00 c), py_int (m01 c / m00 c))
                     else approx c ! 0)"
proof (induction cs arbitrary: r rule: rev_induct)
  case Nil
  then show ?case by (simp add: classify_loop_def)
next
  case (snoc c cs)
  from snoc.prems have "r \<in> set (regions (classify_step t c (classify_loop t cs)))"
    by (simp only: classify_loop_snoc)
  from classify_step_regions [OF this] show ?case
  proof
    assume "r \<in> set (regions (classify_loop t cs))"
    from snoc.IH [OF this] show ?thesis by auto
  next
    assume "\<not> contourArea c < t * 0.0005 \<and> 4 \<le> length (approx c) \<and> contourArea c \<le> t * 0.15 \<and>
          polygon r = Some (approx c) \<and> area r = contourArea c \<and>
          vertices r = length (approx c) \<and>
          centroid r = (if m00 c \<noteq> 0
                        then (py_int (m10 c / m00 c), py_int (m01 c / m00 c))
                        else approx c ! 0)"
    then show ?thesis by auto
  qed
qed

lemma classify_step_boundary:
  assumes "congregation_boundary (classify_step t c s) = Some p"
  shows "congregation_boundary s = Some p \<or> (p = approx c \<and> contourArea c > t * 0.3)"
  using assms by (auto simp: classify_step_def Let_def split: if_splits)

lemma classify_loop_boundary:
  "congregation_boundary (classify_loop t cs) = Some p \<Longrightarrow>
     \<exists>c \<in> set cs. p = approx c \<and> contourArea c > t * 0.3"
proof (induction cs rule: rev_induct)
  case Nil
  then show ?case by (simp add: classify_loop_def)
next
  case (snoc c cs)
  from snoc.prems have "congregation_boundary (classify_step t c (classify_loop t cs)) = Some p"
    by (simp only: classify_loop_snoc)
  from classify_step_boundary [OF this] snoc.IH show ?case by auto
qed

lemma fallback_boundary:
  "snd (fold (fallback_step t) cs (0, None)) = Some p \<Longrightarrow>
     \<exists>c \<in> set cs. p = approx c \<and> contourArea c > t * 0.1"
proof (induction cs rule: rev_induct)
  case Nil
  then show ?case by simp
next
  case (snoc c cs)
  then show ?case by (auto simp: fallback_step_def Let_def split: if_splits)
qed

section \<open>Sorting and numbering\<close>

lemma length_renumber: "length (renumber rs) = length rs"
  by (simp add: renumber_def)

lemma nth_renumber: "i < length rs \<Longrightarrow> renumber rs ! i = (rs ! i)\<lparr>regionId := i + 1\<rparr>"
  by (simp add: renumber_def nth_enumerate_eq)

lemma renumber_ids: "map regionId (renumber rs) = [1..<Suc (length rs)]"
proof (rule nth_equalityI)
  show "length (map regionId (renumber rs)) = length [1..<Suc (length rs)]"
    by (simp add: length_renumber del: upt_Suc)
next
  fix i assume "i < length (map regionId (renumber rs))"
  then have i: "i < length rs" by (simp add: length_renumber)
  then have "[1..<Suc (length rs)] ! i = 1 + i" by (intro nth_upt) simp
  with i show "map regionId (renumber rs) ! i = [1..<Suc (length rs)] ! i"
    by (simp add: length_renumber nth_renumber)
qed

lemma renumber_erase:
  "map (regionId_update (\<lambda>_. 0)) (renumber rs) = map (regionId_update (\<lambda>_. 0)) rs"
  by (rule nth_equalityI) (simp_all add: length_renumber nth_renumber)

lemma renumber_area: "map area (renumber rs) = map area rs"
  by (rule nth_equalityI) (simp_all add: length_renumber nth_renumber)

lemma renumber_member:
  "r \<in> set (renumber rs) \<Longrightarrow> \<exists>r0 \<in> set rs. \<exists>k. r = r0\<lparr>regionId := k\<rparr>"
proof -
  assume "r \<in> set (renumber rs)"
  then obtain i where i: "i < length rs" and r: "r = renumber rs ! i"
    by (auto simp: in_set_conv_nth length_renumber)
  then have "r = (rs ! i)\<lparr>regionId := i + 1\<rparr>" by (simp add: nth_renumber)
  moreover have "rs ! i \<in> set rs" using i by simp
  ultimately show ?thesis by blast
qed

lemma sort_regions_sorted: "sorted_wrt (\<lambda>r s. area s \<le> area r) (sort_regions rs)"
proof -
  have "sorted (map (\<lambda>r. - area r) (sort_regions rs))"
    unfolding sort_regions_def by (rule sorted_sort_key)
  then show ?thesis by (simp add: sorted_map)
qed

lemma sort_regions_stable:
  "filter (\<lambda>r. area r = a) (sort_regions rs) = filter (\<lambda>r. area r = a) rs"
  using sort_key_stable [of "\<lambda>r. - area r" "- a" rs] by (simp add: sort_regions_def)

lemma filter_area_renumber:
  "map (regionId_update (\<lambda>_. 0)) (filter (\<lambda>r. area r = a) (renumber rs)) =
   map (regionId_update (\<lambda>_. 0)) (filter (\<lambda>r. area r = a) rs)"
proof -
  have swap: "map (regionId_update (\<lambda>_. 0)) (filter (\<lambda>r. area r = a) xs) =
        filter (\<lambda>r. area r = a) (map (regionId_update (\<lambda>_. 0)) xs)" for xs
    by (induction xs) simp_all
  show ?thesis unfolding swap [of "renumber rs"] swap [of rs] renumber_erase ..
qed

lemma renumber_sorted:
  "sorted_wrt (\<lambda>r s. area s \<le> area r) rs \<Longrightarrow> sorted_wrt (\<lambda>r s. area s \<le> area r) (renumber rs)"
proof -
  assume "sorted_wrt (\<lambda>r s. area s \<le> area r) rs"
  then have "sorted_wrt (\<lambda>a b. b \<le> a) (map area rs)" by (simp add: sorted_wrt_map)
  then have "sorted_wrt (\<lambda>a b. b \<le> a) (map area (renumber rs))" by (simp add: renumber_area)
  then show ?thesis by (simp add: sorted_wrt_map)
qed

section \<open>The example images and datasets, evaluated\<close>

lemma example_extraction: "extract_boundaries (Some example_image) = Some example_dataset"
  by (simp add: extract_boundaries_def example_image_def example_contour_def
      example_dataset_def example_region_def classify_loop_def classify_step_def
      sort_regions_def renumber_def find_boundary_def fallback_step_def py_int_def Let_def)

lemma overlap_extraction:
  "extract_boundaries (Some overlap_image) =
     Some \<lparr>extractedRegions =
             Some [\<lparr>regionId = 1, polygon = Some [(0, 0), (40, 0), (40, 30), (0, 30)],
                    centroid = (20, 15), area = 1200, vertices = 4\<rparr>],
           congregationBoundary = Some [(0, 0), (40, 0), (40, 30), (0, 30)],
           imageWidth = 100, imageHeight = 100, sourceImage = ''Map/Real Boundary.png'',
           extractionDate = None\<rparr>"
  by (simp add: extract_boundaries_def overlap_image_def overlap_contour_def
      classify_loop_def classify_step_def
      sort_regions_def renumber_def find_boundary_def fallback_step_def py_int_def Let_def)

lemma twin_extraction:
  "extract_boundaries (Some twin_image) =
     Some \<lparr>extractedRegions =
             Some [\<lparr>regionId = 1, polygon = Some [(0, 0), (10, 0), (10, 2), (0, 2)],
                    centroid = (5, 1), area = 20, vertices = 4\<rparr>,
                   \<lparr>regionId = 2, polygon = Some [(20, 20), (30, 20), (30, 22), (20, 22)],
                    centroid = (25, 21), area = 20, vertices = 4\<rparr>],
           congregationBoundary = None,
           imageWidth = 100, imageHeight = 100, sourceImage = ''Map/Real Boundary.png'',
           extractionDate = None\<rparr>"
  by (simp add: extract_boundaries_def twin_image_def twin_contour_def example_contour_def
      classify_loop_def classify_step_def
      sort_regions_def renumber_def find_boundary_def fallback_step_def py_int_def Let_def)

lemma rectangle_loop: "rdp_loop [(0, 0), (10, 0), (10, 2), (0, 2)] 3 = (10, 1)"
  by (simp add: rdp_loop_3 rdp_step_def distance_point_line_def)

lemma rectangle_rdp: "rdp [(0, 0), (10, 0), (10, 2), (0, 2)] 50 = Some [(0, 0), (0, 2)]"
  using rdp_collapse_at [OF _ _ rectangle_loop, of 50] by simp

lemma example_region_simplified:
  "simplify_region 50 example_region =
     Some (example_region\<lparr>polygon := Some [(0, 0), (0, 2)], vertices := 2\<rparr>)"
  by (simp add: simplify_region_def example_region_def rectangle_rdp)

lemma example_dataset_simplified:
  "simplify_dataset 50 example_dataset =
     Some (example_dataset\<lparr>extractedRegions :=
       Some [example_region\<lparr>polygon := Some [(0, 0), (0, 2)], vertices := 2\<rparr>]\<rparr>)"
  by (simp add: simplify_dataset_def example_dataset_def example_region_simplified)

lemma large_extraction:
  "extract_boundaries (Some large_image) =
     Some (example_dataset\<lparr>congregationBoundary := Some [(10, 10), (90, 10), (90, 60), (10, 60)]\<rparr>)"
  by (simp add: extract_boundaries_def large_image_def large_contour_def example_contour_def
      example_dataset_def example_region_def classify_loop_def classify_step_def
      sort_regions_def renumber_def find_boundary_def fallback_step_def py_int_def Let_def)

lemma large_loop_boundary:
  "congregation_boundary (classify_loop (real (width large_image * height large_image))
      [large_contour, example_contour]) = Some [(10, 10), (90, 10), (90, 60), (10, 60)]"
  by (simp add: large_image_def large_contour_def example_contour_def
      classify_loop_def classify_step_def Let_def)

section \<open>Regions that extraction emits\<close>

lemma extracted_region:
  assumes "r \<in> set (renumber (sort_regions (regions (classify_loop t cs))))"
  shows "\<exists>c \<in> set cs.
       \<not> contourArea c < t * 0.0005 \<and> 4 \<le> length (approx c) \<and> contourArea c \<le> t * 0.15 \<and>
       polygon r = Some (approx c) \<and> area r = contourArea c \<and>
       vertices r = length (approx c) \<and>
       centroid r = (if m00 c \<noteq> 0
                     then (py_int (m10 c / m00 c), py_int (m01 c / m00 c))
                     else approx c ! 0)"
proof -
  from renumber_member [OF assms] obtain r0 k
    where r0: "r0 \<in> set (sort_regions (regions (classify_loop t cs)))"
      and r: "r = r0\<lparr>regionId := k\<rparr>" by blast
  from r0 have "r0 \<in> set (regions (classify_loop t cs))" by (simp add: sort_regions_def)
  from classify_loop_regions [OF this] r show ?thesis by simp
qed

lemma extract_boundaries_found:
  "found im = Some cs \<Longrightarrow>
     extract_boundaries (Some im) =
       Some \<lparr>extractedRegions =
               Some (renumber (sort_regions
                 (regions (classify_loop (real (width im * height im)) cs)))),
             congregationBoundary =
               find_boundary (real (width im * height im)) cs
                 (congregation_boundary (classify_loop (real (width im * height im)) cs)),
             imageWidth = width im, imageHeight = height im,
             sourceImage = ''Map/Real Boundary.png'', extractionDate = None\<rparr>"
  by (simp add: extract_boundaries_def Let_def)

lemma extract_boundaries_regions:
  assumes "extract_boundaries img = Some d"
  shows "\<exists>im cs. img = Some im \<and> found im = Some cs \<and>
           extractedRegions d =
             Some (renumber (sort_regions
               (regions (classify_loop (real (width im * height im)) cs))))"
  using assms by (auto simp: extract_boundaries_def Let_def split: option.splits)

section \<open>Vertex counts\<close>

lemma simplify_region_ok:
  assumes "0 \<le> eps" "region_ok 2 r" "simplify_region eps r = Some r'"
  shows "region_ok 2 r'"
proof -
  from assms(2) obtain p where p: "polygon r = Some p" "2 \<le> length p" "vertices r = length p"
    by (auto simp: region_ok_def split: option.splits)
  from assms(1) p(2) obtain R where R: "rdp p eps = Some R" "within_tolerance eps p R"
    using rdp_within_tolerance by blast
  from p(2) have "p \<noteq> []" by auto
  with p(1) R(1) assms(3) have "r' = r\<lparr>polygon := Some R, vertices := length R\<rparr>"
    by (simp add: simplify_region_def)
  moreover have "2 \<le> length R" using R(2) p(2) by (rule within_tolerance_length2)
  ultimately show ?thesis by (simp add: region_ok_def)
qed

lemma simplify_regions_ok:
  "0 \<le> eps \<Longrightarrow> list_all (region_ok 2) rs \<Longrightarrow> simplify_regions eps rs = Some rs' \<Longrightarrow>
     list_all (region_ok 2) rs'"
proof (induction rs arbitrary: rs')
  case Nil
  then show ?case by simp
next
  case (Cons r rs)
  from Cons.prems(3) obtain r' rs'' where
    r': "simplify_region eps r = Some r'" and rs'': "simplify_regions eps rs = Some rs''"
    and eq: "rs' = r' # rs''"
    by (auto simp: bind_eq_Some_conv)
  from Cons.prems(2) have "region_ok 2 r" "list_all (region_ok 2) rs" by simp_all
  with Cons.IH [OF Cons.prems(1) _ rs''] simplify_region_ok [OF Cons.prems(1) _ r']
  show ?case by (simp add: eq)
qed

lemma simplify_dataset_ok:
  assumes "0 \<le> eps" "dataset_ok 2 d" "simplify_dataset eps d = Some d'"
  shows "dataset_ok 2 d'"
proof (cases "extractedRegions d")
  case None
  with assms(2,3) show ?thesis by (simp add: simplify_dataset_def)
next
  case (Some rs)
  with assms(3) obtain rs' where rs': "simplify_regions eps rs = Some rs'"
    and d': "d' = d\<lparr>extractedRegions := Some rs'\<rparr>"
    by (auto simp: simplify_dataset_def bind_eq_Some_conv)
  from assms(2) Some have "list_all (region_ok 2) rs" by (simp add: dataset_ok_def)
  from simplify_regions_ok [OF assms(1) this rs'] show ?thesis
    by (simp add: dataset_ok_def d')
qed

lemma simplify_passes_ok:
  "list_all (\<lambda>e. 0 \<le> e) es \<Longrightarrow> dataset_ok 2 d \<Longrightarrow>
     \<exists>d'. simplify_passes es d = Some d' \<and> dataset_ok 2 d'"
proof (induction es arbitrary: d)
  case Nil
  then show ?case by simp
next
  case (Cons e es)
  from Cons.prems(1) have e: "0 \<le> e" and es: "list_all (\<lambda>e. 0 \<le> e) es" by simp_all
  obtain d1 where d1: "simplify_dataset e d = Some d1"
    using simplify_dataset_returns [OF e] by blast
  from e Cons.prems(2) d1 have "dataset_ok 2 d1" by (rule simplify_dataset_ok)
  from Cons.IH [OF es this] d1 show ?case by simp
qed

lemma region_ok_mono: "region_ok n r \<Longrightarrow> m \<le> n \<Longrightarrow> region_ok m r"
  by (auto simp: region_ok_def split: option.splits)

lemma dataset_ok_mono: "dataset_ok n d \<Longrightarrow> m \<le> n \<Longrightarrow> dataset_ok m d"
  unfolding dataset_ok_def list_all_iff using region_ok_mono by blast

lemma extracted_dataset_ok:
  assumes "extract_boundaries img = Some d"
  shows "dataset_ok 4 d"
proof -
  from extract_boundaries_regions [OF assms] obtain im :: image and cs where
    rs: "extractedRegions d =
      Some (renumber (sort_regions (regions (classify_loop (real (width im * height im)) cs))))"
    by blast
  have "region_ok 4 r"
    if "r \<in> set (renumber (sort_regions (regions (classify_loop (real (width im * height im)) cs))))"
    for r
    using extracted_region [OF that] by (auto simp: region_ok_def)
  then show ?thesis by (simp add: dataset_ok_def rs list_all_iff)
qed

text \<open>
  Claim C1, as amended. After extraction every region of the dataset has a polygon of
  at least 4 vertices and a \<open>vertices\<close> field equal to their number. After any number
  of simplification passes with tolerances \<open>\<ge> 0\<close> every region still has a polygon
  and a matching \<open>vertices\<close> field, with at least 2 vertices.
\<close>

theorem vertex_floor:
  assumes "extract_boundaries img = Some d" and "list_all (\<lambda>e. 0 \<le> e) es"
  shows "dataset_ok 4 (d\<lparr>extractionDate := ts\<rparr>) \<and>
         (\<exists>d'. simplify_passes es (d\<lparr>extractionDate := ts\<rparr>) = Some d' \<and> dataset_ok 2 d')"
proof -
  from extracted_dataset_ok [OF assms(1)]
  have ok4: "dataset_ok 4 (d\<lparr>extractionDate := ts\<rparr>)" by (simp add: dataset_ok_def)
  then have "dataset_ok 2 (d\<lparr>extractionDate := ts\<rparr>)"
    by (rule dataset_ok_mono) simp
  from simplify_passes_ok [OF assms(2) this] ok4 show ?thesis by blast
qed

theorem vertex_floor_witness:
  "extract_boundaries (Some example_image) = Some example_dataset \<and>
   list_all (\<lambda>e. 0 \<le> e) [50 :: real] \<and>
   dataset_ok 4 (example_dataset\<lparr>extractionDate := Some ''2026-01-01T12:00:00''\<rparr>) \<and>
   (\<exists>d'. simplify_passes [50]
            (example_dataset\<lparr>extractionDate := Some ''2026-01-01T12:00:00''\<rparr>) = Some d' \<and>
         dataset_ok 2 d')"
proof -
  have "list_all (\<lambda>e. 0 \<le> e) [50 :: real]" by simp
  from vertex_floor [OF example_extraction this] example_extraction this
  show ?thesis by blast
qed

text \<open>
  Claim C1 as the specification states it fails: the thin rectangle is extracted with 4
  vertices, and one pass with the script's tolerance 50 leaves it 2.
\<close>

theorem vertex_floor_lost:
  "extract_boundaries (Some example_image) = Some example_dataset \<and>
   simplify_passes [50] example_dataset =
     Some (example_dataset\<lparr>extractedRegions :=
       Some [example_region\<lparr>polygon := Some [(0, 0), (0, 2)], vertices := 2\<rparr>]\<rparr>) \<and>
   \<not> dataset_ok 4 (example_dataset\<lparr>extractedRegions :=
       Some [example_region\<lparr>polygon := Some [(0, 0), (0, 2)], vertices := 2\<rparr>]\<rparr>)"
  by (simp add: example_extraction example_dataset_simplified dataset_ok_def region_ok_def)

section \<open>The congregation boundary\<close>

lemma find_boundary_main: "find_boundary t cs (Some p) = Some p"
  by (simp add: find_boundary_def)

lemma find_boundary_fallback:
  "find_boundary t cs None = Some p \<Longrightarrow> \<exists>c \<in> set cs. p = approx c \<and> contourArea c > t * 0.1"
proof -
  assume "find_boundary t cs None = Some p"
  then have "snd (fold (fallback_step t) cs (0, None)) = Some p"
    by (simp add: find_boundary_def)
  then show ?thesis by (rule fallback_boundary)
qed

lemma area_window: "0 \<le> (t::real) \<Longrightarrow> t * 0.3 < a \<Longrightarrow> a \<le> t * 0.15 \<Longrightarrow> False"
  by simp

lemma approx_inj:
  assumes "distinct (map approx cs)" "c \<in> set cs" "c' \<in> set cs" "approx c = approx c'"
  shows "c = c'"
  using assms by (auto simp: distinct_map dest: inj_onD)

text \<open>
  Claim C2, as amended. Let no two contours have the same simplified polygon. When the
  classification loop selects the congregation boundary (a contour of more than 30
  percent of the image area), its polygon is not the polygon of any emitted region.
  When the fallback scan selects it, an emitted region with that polygon has an area
  of more than 10 and at most 15 percent of the image area.
\<close>

theorem boundary_not_region:
  assumes "found im = Some cs" and "distinct (map approx cs)"
  shows "\<exists>d rs. extract_boundaries (Some im) = Some d \<and> extractedRegions d = Some rs \<and>
           (\<forall>p. congregation_boundary (classify_loop (real (width im * height im)) cs) = Some p
              \<longrightarrow> congregationBoundary d = Some p \<and> list_all (\<lambda>r. polygon r \<noteq> Some p) rs) \<and>
           (\<forall>p. congregation_boundary (classify_loop (real (width im * height im)) cs) = None \<and>
                congregationBoundary d = Some p
              \<longrightarrow> list_all (\<lambda>r. polygon r = Some p \<longrightarrow>
                     real (width im * height im) * 0.1 < area r \<and>
                     area r \<le> real (width im * height im) * 0.15) rs)"
proof -
  let ?t = "real (width im * height im)"
  let ?s = "classify_loop ?t cs"
  let ?rs = "renumber (sort_regions (regions ?s))"
  have t0: "0 \<le> ?t" by simp
  obtain d where d: "extract_boundaries (Some im) = Some d"
    and regs: "extractedRegions d = Some ?rs"
    and cb: "congregationBoundary d = find_boundary ?t cs (congregation_boundary ?s)"
    using extract_boundaries_found [OF assms(1)] by simp
  have main: "congregationBoundary d = Some p \<and> list_all (\<lambda>r. polygon r \<noteq> Some p) ?rs"
    if p: "congregation_boundary ?s = Some p" for p
  proof -
    from classify_loop_boundary [OF p] obtain c where
      c: "c \<in> set cs" "p = approx c" "contourArea c > ?t * 0.3" by blast
    have "polygon r \<noteq> Some p" if "r \<in> set ?rs" for r
    proof
      assume eq: "polygon r = Some p"
      from extracted_region [OF that] obtain c' where
        c': "c' \<in> set cs" "contourArea c' \<le> ?t * 0.15" "polygon r = Some (approx c')"
        by blast
      from eq c'(3) c(2) have "approx c = approx c'" by simp
      with assms(2) c(1) c'(1) have "c = c'" by (rule approx_inj)
      then have "contourArea c \<le> ?t * 0.15" using c'(2) by (simp only:)
      with t0 c(3) show False by (rule area_window)
    qed
    then show ?thesis using p cb by (simp add: find_boundary_main list_all_iff)
  qed
  have fallback: "list_all (\<lambda>r. polygon r = Some p \<longrightarrow> ?t * 0.1 < area r \<and> area r \<le> ?t * 0.15) ?rs"
    if none: "congregation_boundary ?s = None" and p: "congregationBoundary d = Some p" for p
  proof -
    from none p cb have "find_boundary ?t cs None = Some p" by simp
    from find_boundary_fallback [OF this] obtain c where
      c: "c \<in> set cs" "p = approx c" "contourArea c > ?t * 0.1" by blast
    have "?t * 0.1 < area r \<and> area r \<le> ?t * 0.15"
      if "r \<in> set ?rs" and eq: "polygon r = Some p" for r
    proof -
      from extracted_region [OF that(1)] obtain c' where
        c': "c' \<in> set cs" "contourArea c' \<le> ?t * 0.15" "polygon r = Some (approx c')"
          "area r = contourArea c'"
        by blast
      from eq c'(3) c(2) have "approx c = approx c'" by simp
      with assms(2) c(1) c'(1) have "c = c'" by (rule approx_inj)
      with c(3) c'(2,4) show ?thesis by simp
    qed
    then show ?thesis by (simp add: list_all_iff)
  qed
  from d regs main fallback show ?thesis by blast
qed

theorem boundary_not_region_witness:
  "found large_image = Some [large_contour, example_contour] \<and>
   distinct (map approx [large_contour, example_contour]) \<and>
   congregation_boundary (classify_loop (real (width large_image * height large_image))
      [large_contour, example_contour]) = Some [(10, 10), (90, 10), (90, 60), (10, 60)] \<and>
   extract_boundaries (Some large_image) =
     Some (example_dataset\<lparr>congregationBoundary :=
       Some [(10, 10), (90, 10), (90, 60), (10, 60)]\<rparr>) \<and>
   list_all (\<lambda>r. polygon r \<noteq> Some [(10, 10), (90, 10), (90, 60), (10, 60)]) [example_region]"
proof -
  have f: "found large_image = Some [large_contour, example_contour]"
    by (simp add: large_image_def)
  have dist: "distinct (map approx [large_contour, example_contour])"
    by (simp add: large_contour_def example_contour_def)
  from boundary_not_region [OF f dist] large_extraction large_loop_boundary
  have "list_all (\<lambda>r. polygon r \<noteq> Some [(10, 10), (90, 10), (90, 60), (10, 60)])
          [example_region]"
    by (auto simp: example_dataset_def)
  with f dist large_extraction large_loop_boundary show ?thesis by simp
qed

text \<open>
  Claim C2 as the specification states it fails on the fallback path: a single
  contour of 12 percent of the image area is emitted as a region, and the fallback scan
  selects the same polygon as the congregation boundary.
\<close>

theorem boundary_is_region:
  "extractedRegions (the (extract_boundaries (Some overlap_image))) =
     Some [\<lparr>regionId = 1, polygon = Some [(0, 0), (40, 0), (40, 30), (0, 30)],
            centroid = (20, 15), area = 1200, vertices = 4\<rparr>] \<and>
   congregationBoundary (the (extract_boundaries (Some overlap_image))) =
     Some [(0, 0), (40, 0), (40, 30), (0, 30)] \<and>
   congregation_boundary (classify_loop (real (width overlap_image * height overlap_image))
     [overlap_contour]) = None"
  by (simp add: overlap_extraction)
     (simp add: overlap_image_def overlap_contour_def classify_loop_def classify_step_def Let_def)

text \<open>
  Claim C7, as amended. In the extraction output the \<open>regionId\<close> values are
  \<open>1, \<dots>, N\<close> in list order, and the regions are in descending order of area, where
  regions of equal area stand next to each other in the order in which the
  classification loop accepted them.
\<close>

theorem region_order:
  assumes "found im = Some cs"
  shows "\<exists>d rs. extract_boundaries (Some im) = Some d \<and> extractedRegions d = Some rs \<and>
           map regionId rs = [1..<Suc (length rs)] \<and>
           sorted_wrt (\<lambda>r s. area s \<le> area r) rs \<and>
           (\<forall>a. map (regionId_update (\<lambda>_. 0)) (filter (\<lambda>r. area r = a) rs) =
                map (regionId_update (\<lambda>_. 0))
                  (filter (\<lambda>r. area r = a)
                    (regions (classify_loop (real (width im * height im)) cs))))"
proof -
  let ?pre = "regions (classify_loop (real (width im * height im)) cs)"
  let ?rs = "renumber (sort_regions ?pre)"
  obtain d where d: "extract_boundaries (Some im) = Some d"
    and regs: "extractedRegions d = Some ?rs"
    using extract_boundaries_found [OF assms] by simp
  have ids: "map regionId ?rs = [1..<Suc (length ?rs)]"
    using renumber_ids [of "sort_regions ?pre"] by (simp only: length_renumber)
  have ord: "sorted_wrt (\<lambda>r s. area s \<le> area r) ?rs"
    by (intro renumber_sorted sort_regions_sorted)
  have ties: "map (regionId_update (\<lambda>_. 0)) (filter (\<lambda>r. area r = a) ?rs) =
      map (regionId_update (\<lambda>_. 0)) (filter (\<lambda>r. area r = a) ?pre)" for a
    by (simp only: filter_area_renumber sort_regions_stable)
  from d regs ids ord ties show ?thesis by blast
qed

theorem region_order_witness:
  "found twin_image = Some [example_contour, twin_contour] \<and>
   map regionId (the (extractedRegions (the (extract_boundaries (Some twin_image))))) = [1, 2] \<and>
   map area (the (extractedRegions (the (extract_boundaries (Some twin_image))))) = [20, 20] \<and>
   map polygon (the (extractedRegions (the (extract_boundaries (Some twin_image))))) =
     map polygon (regions (classify_loop (real (width twin_image * height twin_image))
       [example_contour, twin_contour]))"
proof -
  let ?pre = "regions (classify_loop (real (width twin_image * height twin_image))
       [example_contour, twin_contour])"
  have f: "found twin_image = Some [example_contour, twin_contour]"
    by (simp add: twin_image_def)
  from region_order [OF f] obtain d rs where
    d: "extract_boundaries (Some twin_image) = Some d" "extractedRegions d = Some rs"
    and ids: "map regionId rs = [1..<Suc (length rs)]"
    and ties: "map (regionId_update (\<lambda>_. 0)) (filter (\<lambda>r. area r = 20) rs) =
                map (regionId_update (\<lambda>_. 0)) (filter (\<lambda>r. area r = 20) ?pre)"
    by blast
  from d twin_extraction have rs: "rs =
      [\<lparr>regionId = 1, polygon = Some [(0, 0), (10, 0), (10, 2), (0, 2)],
        centroid = (5, 1), area = 20, vertices = 4\<rparr>,
       \<lparr>regionId = 2, polygon = Some [(20, 20), (30, 20), (30, 22), (20, 22)],
        centroid = (25, 21), area = 20, vertices = 4\<rparr>]"
    by auto
  have pre: "?pre =
      [\<lparr>regionId = 1, polygon = Some [(0, 0), (10, 0), (10, 2), (0, 2)],
        centroid = (5, 1), area = 20, vertices = 4\<rparr>,
       \<lparr>regionId = 2, polygon = Some [(20, 20), (30, 20), (30, 22), (20, 22)],
        centroid = (25, 21), area = 20, vertices = 4\<rparr>]"
    by (simp add: twin_image_def twin_contour_def example_contour_def
        classify_loop_def classify_step_def py_int_def Let_def)
  from ids rs have "map regionId rs = [1, 2]" by (simp add: upt_conv_Cons)
  with f d rs pre show ?thesis by simp
qed

text \<open>
  Claim C7 as the specification states it fails where two regions have the same area:
  both are emitted, and the areas in list order are not strictly descending.
\<close>

theorem region_order_not_strict:
  "map area (the (extractedRegions (the (extract_boundaries (Some twin_image))))) = [20, 20] \<and>
   \<not> sorted_wrt (\<lambda>a b. b < a)
       (map area (the (extractedRegions (the (extract_boundaries (Some twin_image))))))"
  by (simp add: twin_extraction)

section \<open>Centroids\<close>

lemma within_tolerance_set: "within_tolerance eps P R \<Longrightarrow> set R \<subseteq> set P"
  by (induction rule: within_tolerance.induct) auto

lemma rdp_set:
  assumes "0 \<le> eps" "rdp P eps = Some R"
  shows "set R \<subseteq> set P"
proof (cases "2 \<le> length P")
  case True
  with assms(1) obtain R' where "rdp P eps = Some R'" "within_tolerance eps P R'"
    using rdp_within_tolerance by blast
  with assms(2) show ?thesis by (auto dest: within_tolerance_set)
next
  case False
  with assms(2) show ?thesis by (simp add: rdp_short)
qed

lemma in_bbox_mono: "set p' \<subseteq> set p \<Longrightarrow> in_bbox c p' \<Longrightarrow> in_bbox c p"
  unfolding in_bbox_def list_ex_iff by blast

lemma in_bbox_first: "p \<noteq> [] \<Longrightarrow> in_bbox (p ! 0) p"
  unfolding in_bbox_def list_ex_iff by (cases p) auto

lemma simplify_region_centroid:
  assumes "0 \<le> eps" "simplify_region eps r = Some r'" "polygon r = Some p"
  shows "centroid r' = centroid r \<and>
         (\<exists>p'. polygon r' = Some p' \<and> set p' \<subseteq> set p)"
proof (cases "p = []")
  case True
  with assms(2,3) show ?thesis by (simp add: simplify_region_def)
next
  case False
  obtain R where R: "rdp p eps = Some R" using rdp_returns [OF assms(1)] by blast
  with False assms(2,3) have "r' = r\<lparr>polygon := Some R, vertices := length R\<rparr>"
    by (simp add: simplify_region_def)
  moreover have "set R \<subseteq> set p" using assms(1) R by (rule rdp_set)
  ultimately show ?thesis by simp
qed

text \<open>
  Claim C8, as amended. A region that extraction emits has the polygon of a contour,
  and its centroid is the truncated quotient of the contour's moments, or the first
  vertex of the polygon when \<open>m00\<close> is 0; in that second case the centroid lies in the
  bounding box of the polygon. A simplification pass with tolerance \<open>\<ge> 0\<close> leaves the
  centroid as it is and keeps only vertices of the polygon, so a centroid that lies in
  the bounding box of the simplified polygon lay in that of the polygon before.
\<close>

theorem centroid_kept:
  assumes "0 \<le> eps" and "found im = Some cs"
    and "extract_boundaries (Some im) = Some d" and "extractedRegions d = Some rs"
    and "r \<in> set rs"
  shows "\<exists>c p r' p'.
           c \<in> set cs \<and> polygon r = Some p \<and> p = approx c \<and>
           centroid r = (if m00 c \<noteq> 0
                         then (py_int (m10 c / m00 c), py_int (m01 c / m00 c))
                         else p ! 0) \<and>
           (m00 c = 0 \<longrightarrow> in_bbox (centroid r) p) \<and>
           simplify_region eps r = Some r' \<and> centroid r' = centroid r \<and>
           polygon r' = Some p' \<and> set p' \<subseteq> set p \<and>
           (in_bbox (centroid r') p' \<longrightarrow> in_bbox (centroid r) p)"
proof -
  let ?t = "real (width im * height im)"
  from extract_boundaries_found [OF assms(2)] assms(3,4)
  have "rs = renumber (sort_regions (regions (classify_loop ?t cs)))" by auto
  with assms(5) have "r \<in> set (renumber (sort_regions (regions (classify_loop ?t cs))))"
    by simp
  from extracted_region [OF this] obtain c where
    c: "c \<in> set cs" "4 \<le> length (approx c)" "polygon r = Some (approx c)"
      "centroid r = (if m00 c \<noteq> 0
                     then (py_int (m10 c / m00 c), py_int (m01 c / m00 c))
                     else approx c ! 0)"
    by blast
  from c(2) have "approx c \<noteq> []" by auto
  then have first: "m00 c = 0 \<longrightarrow> in_bbox (centroid r) (approx c)"
    using c(4) by (simp add: in_bbox_first)
  obtain r' where r': "simplify_region eps r = Some r'"
    using simplify_region_returns [OF assms(1)] by blast
  from simplify_region_centroid [OF assms(1) r' c(3)] obtain p' where
    p': "centroid r' = centroid r" "polygon r' = Some p'" "set p' \<subseteq> set (approx c)"
    by blast
  have "in_bbox (centroid r') p' \<longrightarrow> in_bbox (centroid r) (approx c)"
    using p'(1,3) by (auto intro: in_bbox_mono)
  with c first r' p' show ?thesis by blast
qed

theorem centroid_kept_witness:
  "(0::real) \<le> 50 \<and> found example_image = Some [example_contour] \<and>
   extract_boundaries (Some example_image) = Some example_dataset \<and>
   extractedRegions example_dataset = Some [example_region] \<and>
   simplify_region 50 example_region =
     Some (example_region\<lparr>polygon := Some [(0, 0), (0, 2)], vertices := 2\<rparr>) \<and>
   centroid (example_region\<lparr>polygon := Some [(0, 0), (0, 2)], vertices := 2\<rparr>) =
     centroid example_region \<and>
   set [(0, 0), (0, 2)] \<subseteq> set (approx example_contour)"
proof -
  have e: "(0::real) \<le> 50" by simp
  have f: "found example_image = Some [example_contour]" by (simp add: example_image_def)
  have rs: "extractedRegions example_dataset = Some [example_region]"
    by (simp add: example_dataset_def)
  have r: "example_region \<in> set [example_region]" by simp
  from centroid_kept [OF e f example_extraction rs r] obtain c p r' p' where
    *: "c \<in> set [example_contour]" "polygon example_region = Some p" "p = approx c"
      "simplify_region 50 example_region = Some r'" "centroid r' = centroid example_region"
      "polygon r' = Some p'" "set p' \<subseteq> set p"
    by blast
  from *(4,6) example_region_simplified have "p' = [(0, 0), (0, 2)]" by auto
  with * have "set [(0, 0), (0, 2)] \<subseteq> set (approx example_contour)" by simp
  moreover from *(4,5) example_region_simplified
  have "centroid (example_region\<lparr>polygon := Some [(0, 0), (0, 2)], vertices := 2\<rparr>) =
     centroid example_region" by simp
  ultimately show ?thesis using e f example_extraction rs example_region_simplified by simp
qed

text \<open>
  Claim C8 as the specification states it fails: the centroid \<open>(5, 1)\<close> of the thin
  rectangle lies in the bounding box of its polygon, and after one pass with the
  script's tolerance 50 it lies outside the bounding box of the polygon that is left.
\<close>

theorem centroid_leaves_bbox:
  "extract_boundaries (Some example_image) = Some example_dataset \<and>
   extractedRegions example_dataset = Some [example_region] \<and>
   in_bbox (centroid example_region) [(0, 0), (10, 0), (10, 2), (0, 2)] \<and>
   polygon example_region = Some [(0, 0), (10, 0), (10, 2), (0, 2)] \<and>
   simplify_region 50 example_region =
     Some (example_region\<lparr>polygon := Some [(0, 0), (0, 2)], vertices := 2\<rparr>) \<and>
   \<not> in_bbox (centroid (example_region\<lparr>polygon := Some [(0, 0), (0, 2)], vertices := 2\<rparr>))
       [(0, 0), (0, 2)]"
  by (simp add: example_extraction example_region_simplified)
     (simp add: example_dataset_def example_region_def in_bbox_def)

section \<open>A run of the simplification script\<close>

lemma backup_path_fresh: "backup_path env file_path \<noteq> file_path"
  by (simp add: backup_path_def)

lemma simplify_boundaries_missing:
  "files file_path = None \<Longrightarrow> simplify_boundaries env files file_path eps = (files, Returned)"
  by (simp add: simplify_boundaries_def)

lemma simplify_boundaries_malformed:
  "files file_path = Some content \<Longrightarrow> json_load env content = None \<Longrightarrow>
     simplify_boundaries env files file_path eps =
       (files(backup_path env file_path \<mapsto> content), Returned)"
  by (simp add: simplify_boundaries_def)

lemma simplify_boundaries_saved:
  "files file_path = Some content \<Longrightarrow> json_load env content = Some d \<Longrightarrow>
   simplify_dataset eps d = Some d' \<Longrightarrow>
     simplify_boundaries env files file_path eps =
       (fst (write_file (files(backup_path env file_path \<mapsto> content)) file_path
              (json_dump env d') (fault env)), Returned)"
  by (simp add: simplify_boundaries_def)

lemma simplify_region_frame:
  assumes "simplify_region eps r = Some r'"
  shows "regionId r' = regionId r \<and> centroid r' = centroid r \<and> area r' = area r \<and>
         (polygon r = None \<or> polygon r = Some [] \<longrightarrow> r' = r)"
  using assms
  by (auto simp: simplify_region_def Let_def bind_eq_Some_conv split: option.splits if_splits)

lemma simplify_regions_frame:
  "simplify_regions eps rs = Some rs' \<Longrightarrow>
     list_all2 (\<lambda>r r'. regionId r' = regionId r \<and> centroid r' = centroid r \<and>
                  area r' = area r \<and> (polygon r = None \<or> polygon r = Some [] \<longrightarrow> r' = r))
       rs rs'"
proof (induction rs arbitrary: rs')
  case Nil
  then show ?case by simp
next
  case (Cons r rs)
  from Cons.prems obtain r' rs'' where
    r': "simplify_region eps r = Some r'" and rs'': "simplify_regions eps rs = Some rs''"
    and eq: "rs' = r' # rs''"
    by (auto simp: bind_eq_Some_conv)
  from Cons.IH [OF rs''] simplify_region_frame [OF r'] show ?case by (simp add: eq)
qed

lemma simplify_dataset_frame:
  assumes "simplify_dataset eps d = Some d'"
  shows "congregationBoundary d' = congregationBoundary d \<and> imageWidth d' = imageWidth d \<and>
         imageHeight d' = imageHeight d \<and> sourceImage d' = sourceImage d \<and>
         extractionDate d' = extractionDate d \<and>
         (case extractedRegions d of
            None \<Rightarrow> extractedRegions d' = None
          | Some rs \<Rightarrow>
              \<exists>rs'. extractedRegions d' = Some rs' \<and>
                list_all2 (\<lambda>r r'. regionId r' = regionId r \<and> centroid r' = centroid r \<and>
                    area r' = area r \<and> (polygon r = None \<or> polygon r = Some [] \<longrightarrow> r' = r))
                  rs rs')"
proof (cases "extractedRegions d")
  case None
  with assms show ?thesis by (simp add: simplify_dataset_def)
next
  case (Some rs)
  with assms obtain rs' where rs': "simplify_regions eps rs = Some rs'"
    and d': "d' = d\<lparr>extractedRegions := Some rs'\<rparr>"
    by (auto simp: simplify_dataset_def bind_eq_Some_conv)
  from simplify_regions_frame [OF rs'] Some show ?thesis by (simp add: d')
qed

lemma example_run_dump:
  "json_dump example_env
     (example_dataset\<lparr>extractedRegions :=
        Some [example_region\<lparr>polygon := Some [(0, 0), (0, 2)], vertices := 2\<rparr>]\<rparr>) =
   ''SIMPLIFIED''"
  by (simp add: example_env_def example_dataset_def example_region_def)

text \<open>
  Claim C10. A simplification pass that succeeds writes back a dataset in which the
  congregation boundary, the image size, the source image and the extraction date are
  those of the dataset read, the regions are as many and in the same order, each with
  its \<open>regionId\<close>, \<open>centroid\<close> and \<open>area\<close>, and a region whose polygon is empty or
  missing is the region read.
\<close>

theorem simplification_frame:
  assumes "files file_path = Some content" and "json_load env content = Some d"
    and "simplify_dataset eps d = Some d'" and "fault env = NoFault"
  shows "simplify_boundaries env files file_path eps =
           (files(backup_path env file_path \<mapsto> content, file_path \<mapsto> json_dump env d'),
            Returned) \<and>
         congregationBoundary d' = congregationBoundary d \<and> imageWidth d' = imageWidth d \<and>
         imageHeight d' = imageHeight d \<and> sourceImage d' = sourceImage d \<and>
         extractionDate d' = extractionDate d \<and>
         (case extractedRegions d of
            None \<Rightarrow> extractedRegions d' = None
          | Some rs \<Rightarrow>
              \<exists>rs'. extractedRegions d' = Some rs' \<and>
                list_all2 (\<lambda>r r'. regionId r' = regionId r \<and> centroid r' = centroid r \<and>
                    area r' = area r \<and> (polygon r = None \<or> polygon r = Some [] \<longrightarrow> r' = r))
                  rs rs')"
  using simplify_boundaries_saved [of files file_path content env d eps d', OF assms(1-3)]
    simplify_dataset_frame [OF assms(3)] assms(4)
  by simp

theorem simplification_frame_witness:
  "example_files ''data/extracted_regions.json'' = Some ''DATASET'' \<and>
   json_load example_env ''DATASET'' = Some example_dataset \<and>
   simplify_dataset 50 example_dataset =
     Some (example_dataset\<lparr>extractedRegions :=
       Some [example_region\<lparr>polygon := Some [(0, 0), (0, 2)], vertices := 2\<rparr>]\<rparr>) \<and>
   fault example_env = NoFault \<and>
   simplify_boundaries example_env example_files ''data/extracted_regions.json'' 50 =
     (example_files(backup_path example_env ''data/extracted_regions.json'' \<mapsto> ''DATASET'',
        ''data/extracted_regions.json'' \<mapsto> ''SIMPLIFIED''), Returned)"
proof -
  have a: "example_files ''data/extracted_regions.json'' = Some ''DATASET''"
    by (simp add: example_files_def)
  have b: "json_load example_env ''DATASET'' = Some example_dataset"
    by (simp add: example_env_def)
  have c: "fault example_env = NoFault" by (simp add: example_env_def)
  from simplification_frame [of example_files "''data/extracted_regions.json''" "''DATASET''"
      example_env example_dataset 50, OF a b example_dataset_simplified c] a b c
    example_dataset_simplified example_run_dump
  show ?thesis by simp
qed

text \<open>
  Claim C3, as amended. When the dataset file cannot be parsed, the run returns
  normally, so that the process ends with status 0; the dataset file keeps its bytes
  and the backup file is the only change. A run that finds no file changes nothing and
  returns normally, and so does a run whose dataset was simplified, whether or not the
  write succeeded.
\<close>

theorem load_failure_returns:
  "(\<forall>content. files file_path = Some content \<and> json_load env content = None \<longrightarrow>
      simplify_boundaries env files file_path eps =
        (files(backup_path env file_path \<mapsto> content), Returned) \<and>
      fst (simplify_boundaries env files file_path eps) file_path = Some content \<and>
      exit_status (snd (simplify_boundaries env files file_path eps)) = 0) \<and>
   (files file_path = None \<longrightarrow>
      simplify_boundaries env files file_path eps = (files, Returned)) \<and>
   (\<forall>content d d'. files file_path = Some content \<and> json_load env content = Some d \<and>
        simplify_dataset eps d = Some d' \<longrightarrow>
      exit_status (snd (simplify_boundaries env files file_path eps)) = 0)"
  by (auto simp: simplify_boundaries_missing simplify_boundaries_malformed
      simplify_boundaries_saved)

theorem load_failure_returns_witness:
  "malformed_files ''data/extracted_regions.json'' = Some ''{not json'' \<and>
   json_load example_env ''{not json'' = None \<and>
   simplify_boundaries example_env malformed_files ''data/extracted_regions.json'' 50 =
     (malformed_files(backup_path example_env ''data/extracted_regions.json'' \<mapsto> ''{not json''),
      Returned) \<and>
   fst (simplify_boundaries example_env malformed_files ''data/extracted_regions.json'' 50)
     ''data/extracted_regions.json'' = Some ''{not json''"
proof -
  have a: "malformed_files ''data/extracted_regions.json'' = Some ''{not json''"
    by (simp add: malformed_files_def)
  have b: "json_load example_env ''{not json'' = None"
    by (simp add: example_env_def)
  from load_failure_returns [of malformed_files "''data/extracted_regions.json''"
      example_env 50] a b
  show ?thesis by blast
qed

text \<open>
  Claim C3 as the specification states it fails: run on a dataset file that does not
  parse, the script ends with completion status 0.
\<close>

theorem load_failure_status_zero:
  "malformed_files ''data/extracted_regions.json'' = Some ''{not json'' \<and>
   json_load example_env ''{not json'' = None \<and>
   snd (simplify_main example_env malformed_files) = 0"
  by (simp add: simplify_main_def simplify_boundaries_def malformed_files_def example_env_def)

text \<open>
  Claim C4, as amended. The dataset is written into the live file itself: a run of
  either script changes no path but the live file and, in a simplification run, the
  backup file, which holds the bytes the live file had. After a write without a fault
  the live file holds the new content; after a write that failed when \<open>n\<close> bytes were
  written it holds the first \<open>n\<close> bytes of the new content; when the file could not be
  opened it is unchanged.
\<close>

theorem write_in_place:
  assumes "files file_path = Some content" and "json_load env content = Some d"
    and "simplify_dataset eps d = Some d'"
  shows "(\<forall>p. p \<noteq> file_path \<and> p \<noteq> backup_path env file_path \<longrightarrow>
            fst (simplify_boundaries env files file_path eps) p = files p) \<and>
         fst (simplify_boundaries env files file_path eps) (backup_path env file_path) =
           Some content \<and>
         fst (simplify_boundaries env files file_path eps) file_path =
           (case fault env of
              NoFault \<Rightarrow> Some (json_dump env d')
            | OpenFails \<Rightarrow> Some content
            | WriteFails n \<Rightarrow> Some (take n (json_dump env d'))) \<and>
         (\<forall>p. p \<noteq> ''data/extracted_regions.json'' \<longrightarrow>
            fst (save_extracted_data env files data) p = files p) \<and>
         fst (save_extracted_data env files data) ''data/extracted_regions.json'' =
           (case fault env of
              NoFault \<Rightarrow> Some (json_dump env (data\<lparr>extractionDate := Some (timestamp env)\<rparr>))
            | OpenFails \<Rightarrow> files ''data/extracted_regions.json''
            | WriteFails n \<Rightarrow>
                Some (take n (json_dump env (data\<lparr>extractionDate := Some (timestamp env)\<rparr>))))"
  using simplify_boundaries_saved [of files file_path content env d eps d', OF assms]
    assms(1) backup_path_fresh [of env file_path]
  by (cases "fault env") (auto simp: save_extracted_data_def Let_def)

theorem write_in_place_witness:
  "example_files ''data/extracted_regions.json'' = Some ''DATASET'' \<and>
   json_load (example_env\<lparr>fault := WriteFails 3\<rparr>) ''DATASET'' = Some example_dataset \<and>
   simplify_dataset 50 example_dataset =
     Some (example_dataset\<lparr>extractedRegions :=
       Some [example_region\<lparr>polygon := Some [(0, 0), (0, 2)], vertices := 2\<rparr>]\<rparr>) \<and>
   fst (simplify_boundaries (example_env\<lparr>fault := WriteFails 3\<rparr>) example_files
         ''data/extracted_regions.json'' 50)
     (backup_path (example_env\<lparr>fault := WriteFails 3\<rparr>) ''data/extracted_regions.json'') =
     Some ''DATASET'' \<and>
   fst (simplify_boundaries (example_env\<lparr>fault := WriteFails 3\<rparr>) example_files
         ''data/extracted_regions.json'' 50) ''data/extracted_regions.json'' = Some ''SIM''"
proof -
  let ?env = "example_env\<lparr>fault := WriteFails 3\<rparr>"
  have a: "example_files ''data/extracted_regions.json'' = Some ''DATASET''"
    by (simp add: example_files_def)
  have b: "json_load ?env ''DATASET'' = Some example_dataset"
    by (simp add: example_env_def)
  have dump: "json_dump ?env
     (example_dataset\<lparr>extractedRegions :=
        Some [example_region\<lparr>polygon := Some [(0, 0), (0, 2)], vertices := 2\<rparr>]\<rparr>) =
   ''SIMPLIFIED''"
    using example_run_dump by (simp add: example_env_def)
  from write_in_place [of example_files "''data/extracted_regions.json''" "''DATASET''"
      ?env example_dataset 50, OF a b example_dataset_simplified]
    a b example_dataset_simplified dump
  show ?thesis by simp
qed

text \<open>
  Claim C4 as the specification states it fails: when the write fails after 3 bytes,
  the live file holds \<open>SIM\<close>, which is neither what it held before nor the new
  content.
\<close>

theorem partial_write:
  "example_files ''data/extracted_regions.json'' = Some ''DATASET'' \<and>
   json_dump example_env (the (simplify_dataset 50 example_dataset)) = ''SIMPLIFIED'' \<and>
   fst (simplify_boundaries (example_env\<lparr>fault := WriteFails 3\<rparr>) example_files
         ''data/extracted_regions.json'' 50) ''data/extracted_regions.json'' = Some ''SIM''"
proof -
  let ?env = "example_env\<lparr>fault := WriteFails 3\<rparr>"
  have a: "example_files ''data/extracted_regions.json'' = Some ''DATASET''"
    by (simp add: example_files_def)
  have b: "json_load ?env ''DATASET'' = Some example_dataset"
    by (simp add: example_env_def)
  have dump: "json_dump ?env
     (example_dataset\<lparr>extractedRegions :=
        Some [example_region\<lparr>polygon := Some [(0, 0), (0, 2)], vertices := 2\<rparr>]\<rparr>) =
   ''SIMPLIFIED''"
    using example_run_dump by (simp add: example_env_def)
  from simplify_boundaries_saved [of example_files "''data/extracted_regions.json''"
      "''DATASET''" ?env example_dataset 50, OF a b example_dataset_simplified]
    a dump example_run_dump
  show ?thesis by (simp add: example_dataset_simplified)
qed

end
